theory Spec2Isabelle
  imports Main
begin

section \<open>Bytes, strings and errors\<close>

text \<open>
  A Go \<open>string\<close> is a sequence of bytes, and \<open>main.go\<close> indexes its strings by byte
  (\<open>line[i]\<close>), so a string is a \<^typ>\<open>char list\<close>: a \<^typ>\<open>char\<close> is one byte.
\<close>

abbreviation LF :: char where "LF \<equiv> CHR 0x0A"
abbreviation CR :: char where "CR \<equiv> CHR 0x0D"
abbreviation DQ :: char where "DQ \<equiv> CHR 0x22"
abbreviation COMMA :: char where "COMMA \<equiv> CHR 0x2C"

text \<open>
  Go errors. \<open>EOF\<close> is \<open>io.EOF\<close>, \<open>ErrTooLong\<close> is \<open>bufio.ErrTooLong\<close>,
  \<open>Errorf m\<close> is \<open>fmt.Errorf(m)\<close>, \<open>Wrapf m e\<close> is \<open>fmt.Errorf(m + ": %w", e)\<close> and
  \<open>ErrNoExif\<close> is \<open>exif.ErrNoExif\<close>, the error of the JPEG library for a file that holds no
  EXIF segment, and \<open>External m\<close> is any other error handed back by the operating system
  or by the JPEG library.
\<close>

datatype error = EOF | ErrTooLong | ErrNoExif | Errorf string | Wrapf string error | External string

subsection \<open>The functions of package \<open>strings\<close> that the codec calls\<close>

text \<open>
  \<open>strings.ContainsAny(s, chars)\<close> for a \<open>chars\<close> of ASCII characters, which Go looks up
  byte by byte.
\<close>

definition ContainsAny :: "string \<Rightarrow> string \<Rightarrow> bool" where
  "ContainsAny s chars = (\<exists>c \<in> set s. c \<in> set chars)"

text \<open>\<open>strings.HasPrefix\<close>, \<open>strings.HasSuffix\<close> and \<open>strings.TrimSuffix\<close>, as Go writes them.\<close>

definition HasPrefix :: "string \<Rightarrow> string \<Rightarrow> bool" where
  "HasPrefix s pre = (length s \<ge> length pre \<and> take (length pre) s = pre)"

definition HasSuffix :: "string \<Rightarrow> string \<Rightarrow> bool" where
  "HasSuffix s suf = (length s \<ge> length suf \<and> drop (length s - length suf) s = suf)"

definition TrimSuffix :: "string \<Rightarrow> string \<Rightarrow> string" where
  "TrimSuffix s suf = (if HasSuffix s suf then take (length s - length suf) s else s)"

text \<open>
  \<open>strings.ReplaceAll(s, old, new)\<close> for a non-empty \<open>old\<close>: the non-overlapping
  occurrences of \<open>old\<close> are replaced from left to right. (For an empty \<open>old\<close> Go inserts
  \<open>new\<close> around every UTF-8 sequence; the program never asks for that, and the model
  returns \<open>s\<close>.)
\<close>

function ReplaceAll :: "string \<Rightarrow> string \<Rightarrow> string \<Rightarrow> string" where
  "ReplaceAll s old new =
     (if s = [] \<or> old = [] then s
      else if HasPrefix s old then new @ ReplaceAll (drop (length old) s) old new
      else hd s # ReplaceAll (tl s) old new)"
  by pat_completeness auto
termination
  by (relation "measure (\<lambda>(s, old, new). length s)") auto

declare ReplaceAll.simps [simp del]

section \<open>The CSV codec\<close>

subsection \<open>Encoding: \<open>encodeCSVField\<close> and \<open>csvWriter.Write\<close>\<close>

definition encodeCSVField :: "string \<Rightarrow> string" where
  "encodeCSVField field =
     (let needsQuotes = ContainsAny field [DQ, COMMA, LF, CR] in
      if \<not> needsQuotes then field
      else let escaped = ReplaceAll field [DQ] [DQ, DQ] in [DQ] @ escaped @ [DQ])"

text \<open>
  \<open>csvWriter\<close> wraps a \<open>bufio.Writer\<close> over the sidecar file. A \<open>bufio.Writer\<close> of the
  default size holds up to 4096 bytes in its buffer and hands them to the file when the
  buffer is full and when \<open>Flush\<close> is called; until then they are not in the file. The
  model keeps the two apart: \<open>wr\<close> is the content of the file under the writer, the bytes
  the file has received, and \<open>buf\<close> holds the bytes waiting in the buffer, \<open>b.buf[0:b.n]\<close>.
  What the \<open>Write\<close> of the file answers is the device's business, given as a function of
  the content of the file and of the chunk: \<open>None\<close> when the whole chunk has been written,
  or the number of bytes written before the error, and the error.
\<close>

datatype bufioWriter = BufioWriter (wr: string) (buf: string)

datatype device = Device (FileWrite: "string \<Rightarrow> string \<Rightarrow> (nat \<times> error) option")

definition defaultBufSize :: nat where
  "defaultBufSize = 4096"

definition Available :: "bufioWriter \<Rightarrow> nat" where
  "Available b = defaultBufSize - length (buf b)"

text \<open>
  \<open>(*bufio.Writer).Flush\<close> writes the buffered bytes to the file. When the write fails, the
  bytes that were written leave the buffer and the others stay. (A \<open>bufio.Writer\<close> keeps
  its first error and returns it from every later call; the program returns at its first
  error, so the model does not keep it.)
\<close>

definition WriterFlush :: "device \<Rightarrow> bufioWriter \<Rightarrow> error option \<times> bufioWriter" where
  "WriterFlush dev b =
     (if buf b = [] then (None, b)
      else case FileWrite dev (wr b) (buf b) of
             Some (n, err) \<Rightarrow> (Some err, BufioWriter (wr b @ take n (buf b)) (drop n (buf b)))
           | None \<Rightarrow> (None, BufioWriter (wr b @ buf b) []))"

text \<open>
  \<open>(*bufio.Writer).WriteString\<close>: while the text does not fit into the free part of the
  buffer, a text that meets an empty buffer goes to the file directly (an \<open>os.File\<close> is an
  \<open>io.StringWriter\<close>), otherwise the buffer is filled up and flushed; what is left at the
  end is copied into the buffer.
\<close>

function WriteString :: "device \<Rightarrow> bufioWriter \<Rightarrow> string \<Rightarrow> error option \<times> bufioWriter" where
  "WriteString dev b s =
     (if length s > Available b then
        (if buf b = [] then
           (case FileWrite dev (wr b) s of
              Some (n, err) \<Rightarrow> (Some err, BufioWriter (wr b @ take n s) [])
            | None \<Rightarrow> WriteString dev (BufioWriter (wr b @ s) []) [])
         else
           (case WriterFlush dev (BufioWriter (wr b) (buf b @ take (Available b) s)) of
              (Some err, b') \<Rightarrow> (Some err, b')
            | (None, b') \<Rightarrow> WriteString dev b' (drop (Available b) s)))
      else (None, BufioWriter (wr b) (buf b @ s)))"
  by pat_completeness auto
termination
proof (relation "measure (\<lambda>(dev, b, s). 2 * length s + (if buf b = [] then 0 else 1))", goal_cases)
  case 1
  show ?case by simp
next
  case (2 dev b s)
  then have "s \<noteq> []" by auto
  then show ?case by simp
next
  case (3 dev b s x y)
  then have "WriterFlush dev (BufioWriter (wr b) (buf b @ take (Available b) s)) = (None, y)" by simp
  then have "buf y = []"
    by (auto simp: WriterFlush_def split: if_splits option.splits)
  then show ?case using 3 by simp
qed

declare WriteString.simps [simp del]

text \<open>
  \<open>newCSVWriter\<close> is the writer over the file \<open>os.Create\<close> has just created or truncated:
  the file is empty and so is the buffer.
\<close>

datatype csvWriter = CsvWriter (writer: bufioWriter)

definition newCSVWriter :: csvWriter where
  "newCSVWriter = CsvWriter (BufioWriter [] [])"

definition writeString :: "device \<Rightarrow> csvWriter \<Rightarrow> string \<Rightarrow> error option \<times> csvWriter" where
  "writeString dev w v =
     (case WriteString dev (writer w) v of (err, b) \<Rightarrow> (err, CsvWriter b))"

definition Flush :: "device \<Rightarrow> csvWriter \<Rightarrow> error option \<times> csvWriter" where
  "Flush dev w =
     (case WriterFlush dev (writer w) of (err, b) \<Rightarrow> (err, CsvWriter b))"

text \<open>The loop \<open>for i, field := range record\<close> of \<open>Write\<close>, from index \<open>i\<close> on.\<close>

fun writeFields :: "device \<Rightarrow> nat \<Rightarrow> string list \<Rightarrow> csvWriter \<Rightarrow> error option \<times> csvWriter" where
  "writeFields dev i [] w = (None, w)"
| "writeFields dev i (field # rest) w =
     (case (if i > 0 then writeString dev w [COMMA] else (None, w)) of
        (Some err, w1) \<Rightarrow> (Some err, w1)
      | (None, w1) \<Rightarrow>
          (case writeString dev w1 (encodeCSVField field) of
             (Some err, w2) \<Rightarrow> (Some err, w2)
           | (None, w2) \<Rightarrow> writeFields dev (i + 1) rest w2))"

definition Write :: "device \<Rightarrow> csvWriter \<Rightarrow> string list \<Rightarrow> error option \<times> csvWriter" where
  "Write dev w record =
     (case writeFields dev 0 record w of
        (Some err, w') \<Rightarrow> (Some err, w')
      | (None, w') \<Rightarrow> writeString dev w' [LF])"

subsection \<open>Decoding: \<open>parseCSVLine\<close> and \<open>csvReader.Read\<close>\<close>

text \<open>
  The loop of \<open>parseCSVLine\<close> over the bytes still to read, with the loop's three
  variables: the fields finished so far, the field being built and the flag \<open>inQuotes\<close>.
  It returns their values when the line ends.
\<close>

fun parseLoop :: "string \<Rightarrow> string list \<Rightarrow> string \<Rightarrow> bool \<Rightarrow> string list \<times> string \<times> bool" where
  "parseLoop [] fields field inQuotes = (fields, field, inQuotes)"
| "parseLoop (ch # rest) fields field inQuotes =
     (if ch = DQ then
        (if inQuotes \<and> rest \<noteq> [] \<and> hd rest = DQ
         then parseLoop (tl rest) fields (field @ [DQ]) inQuotes
         else parseLoop rest fields field (\<not> inQuotes))
      else if ch = COMMA then
        (if inQuotes then parseLoop rest fields (field @ [ch]) inQuotes
         else parseLoop rest (fields @ [field]) [] inQuotes)
      else parseLoop rest fields (field @ [ch]) inQuotes)"

definition parseCSVLine :: "string \<Rightarrow> error + string list" where
  "parseCSVLine line =
     (case parseLoop line [] [] False of
        (fields, field, inQuotes) \<Rightarrow>
          if inQuotes then Inl (Errorf ''unterminated quoted field'')
          else Inr (fields @ [field]))"

text \<open>
  \<open>csvReader\<close> wraps a \<open>bufio.Scanner\<close> with the default split function \<open>ScanLines\<close> and a
  buffer that grows to \<open>maxScanTokenSize\<close> bytes. A reader \<open>CsvReader input\<close> is reading,
  and \<open>input\<close> are the bytes of the file the scanner has not consumed yet. \<open>Scan\<close> hands out
  the bytes before the next line feed (or to the end of the input, when no line feed is
  left), without one trailing carriage return; it reports the end of the input when
  nothing is left, and \<open>bufio.ErrTooLong\<close> when the buffer fills up before the line ends.
  After that error the scanner keeps the error and still holds the full buffer, the
  first \<open>maxScanTokenSize\<close> bytes of the line: this is the reader \<open>Overlong buffered\<close>. Its
  next \<open>Scan\<close> hands out those bytes as the last token, and from then on (the reader
  \<open>Stopped\<close>) every \<open>Scan\<close> fails and \<open>Err\<close> is \<open>bufio.ErrTooLong\<close>; the rest of the file
  is never read.
\<close>

datatype csvReader = CsvReader string | Overlong string | Stopped

definition maxScanTokenSize :: nat where
  "maxScanTokenSize = 1024 * 1024"

definition newCSVReader :: "string \<Rightarrow> csvReader" where
  "newCSVReader r = CsvReader r"

definition dropCR :: "string \<Rightarrow> string" where
  "dropCR data = (if data \<noteq> [] \<and> last data = CR then butlast data else data)"

fun Scan :: "csvReader \<Rightarrow> (error + string) \<times> csvReader" where
  "Scan (CsvReader input) =
     (if input = [] then (Inl EOF, CsvReader [])
      else let line = takeWhile (\<lambda>c. c \<noteq> LF) input in
        if length line \<ge> maxScanTokenSize then (Inl ErrTooLong, Overlong (take maxScanTokenSize input))
        else (Inr (dropCR line), CsvReader (drop (length line + 1) input)))"
| "Scan (Overlong buffered) = (Inr (dropCR buffered), Stopped)"
| "Scan Stopped = (Inl ErrTooLong, Stopped)"

definition Read :: "csvReader \<Rightarrow> (error + string list) \<times> csvReader" where
  "Read r =
     (case Scan r of
        (Inl err, r') \<Rightarrow> (Inl err, r')
      | (Inr line0, r') \<Rightarrow>
          (let line = (if HasSuffix line0 [CR] then TrimSuffix line0 [CR] else line0) in
           case parseCSVLine line of
             Inl err \<Rightarrow> (Inl err, r')
           | Inr record \<Rightarrow> (Inr record, r')))"

text \<open>A bound on the number of records a reader can still return.\<close>

fun remaining :: "csvReader \<Rightarrow> nat" where
  "remaining (CsvReader input) = length input"
| "remaining (Overlong buffered) = 1"
| "remaining Stopped = 0"

subsection \<open>More of package \<open>strings\<close>: \<open>TrimSpace\<close>, \<open>EqualFold\<close>, \<open>ToLower\<close>\<close>

text \<open>
  \<open>strings.TrimSpace\<close> removes the leading and the trailing white space \<open>as defined by
  Unicode\<close>: it decodes UTF-8 from the left and then from the right and stops at the first
  rune that \<open>unicode.IsSpace\<close> rejects (an invalid byte decodes to U+FFFD, which is no
  space). \<open>whiteSpace\<close> lists the UTF-8 encodings of the runes \<open>unicode.IsSpace\<close> accepts:
  U+0009 to U+000D, U+0020, U+0085, U+00A0, U+1680, U+2000 to U+200A, U+2028, U+2029,
  U+202F, U+205F and U+3000.
\<close>

definition whiteSpace :: "string list" where
  "whiteSpace =
     [[CHR 0x09], [CHR 0x0A], [CHR 0x0B], [CHR 0x0C], [CHR 0x0D], [CHR 0x20],
      [CHR 0xC2, CHR 0x85], [CHR 0xC2, CHR 0xA0],
      [CHR 0xE1, CHR 0x9A, CHR 0x80],
      [CHR 0xE2, CHR 0x80, CHR 0x80], [CHR 0xE2, CHR 0x80, CHR 0x81], [CHR 0xE2, CHR 0x80, CHR 0x82],
      [CHR 0xE2, CHR 0x80, CHR 0x83], [CHR 0xE2, CHR 0x80, CHR 0x84], [CHR 0xE2, CHR 0x80, CHR 0x85],
      [CHR 0xE2, CHR 0x80, CHR 0x86], [CHR 0xE2, CHR 0x80, CHR 0x87], [CHR 0xE2, CHR 0x80, CHR 0x88],
      [CHR 0xE2, CHR 0x80, CHR 0x89], [CHR 0xE2, CHR 0x80, CHR 0x8A],
      [CHR 0xE2, CHR 0x80, CHR 0xA8], [CHR 0xE2, CHR 0x80, CHR 0xA9], [CHR 0xE2, CHR 0x80, CHR 0xAF],
      [CHR 0xE2, CHR 0x81, CHR 0x9F],
      [CHR 0xE3, CHR 0x80, CHR 0x80]]"

text \<open>The number of bytes of the white-space rune a string starts (ends) with; 0 if it has none.\<close>

definition leadingSpace :: "string \<Rightarrow> nat" where
  "leadingSpace s =
     (if length s \<ge> 1 \<and> take 1 s \<in> set whiteSpace then 1
      else if length s \<ge> 2 \<and> take 2 s \<in> set whiteSpace then 2
      else if length s \<ge> 3 \<and> take 3 s \<in> set whiteSpace then 3
      else 0)"

definition trailingSpace :: "string \<Rightarrow> nat" where
  "trailingSpace s =
     (if length s \<ge> 1 \<and> drop (length s - 1) s \<in> set whiteSpace then 1
      else if length s \<ge> 2 \<and> drop (length s - 2) s \<in> set whiteSpace then 2
      else if length s \<ge> 3 \<and> drop (length s - 3) s \<in> set whiteSpace then 3
      else 0)"

function TrimLeftSpace :: "string \<Rightarrow> string" where
  "TrimLeftSpace s = (if leadingSpace s = 0 then s else TrimLeftSpace (drop (leadingSpace s) s))"
  by pat_completeness auto
termination
proof (relation "measure length")
  fix s :: string
  assume a: "leadingSpace s \<noteq> 0"
  from a have "s \<noteq> []" by (auto simp: leadingSpace_def)
  with a show "(drop (leadingSpace s) s, s) \<in> measure length" by simp
qed simp

function TrimRightSpace :: "string \<Rightarrow> string" where
  "TrimRightSpace s = (if trailingSpace s = 0 then s else TrimRightSpace (take (length s - trailingSpace s) s))"
  by pat_completeness auto
termination
proof (relation "measure length")
  fix s :: string
  assume a: "trailingSpace s \<noteq> 0"
  from a have "s \<noteq> []" by (auto simp: trailingSpace_def)
  with a show "(take (length s - trailingSpace s) s, s) \<in> measure length" by simp
qed simp

declare TrimLeftSpace.simps [simp del] TrimRightSpace.simps [simp del]

definition TrimSpace :: "string \<Rightarrow> string" where
  "TrimSpace s = TrimRightSpace (TrimLeftSpace s)"

text \<open>The lower case of an ASCII byte; every other byte is left as it is.\<close>

definition toLowerByte :: "char \<Rightarrow> char" where
  "toLowerByte c =
     (case map_of (zip ''ABCDEFGHIJKLMNOPQRSTUVWXYZ'' ''abcdefghijklmnopqrstuvwxyz'') c of
        Some l \<Rightarrow> l
      | None \<Rightarrow> c)"

text \<open>
  \<open>strings.EqualFold(s, t)\<close> for a \<open>t\<close> of ASCII bytes; the program passes its constants
  \<open>filename\<close>, \<open>title\<close> and \<open>bilder.csv\<close>. Go compares rune by rune under Unicode simple case
  folding. An ASCII letter folds to its other case, and two letters have one more rune in
  their orbit: U+017F (long s, bytes C5 BF) folds to \<open>s\<close> and U+212A (Kelvin sign, bytes
  E2 84 AA) folds to \<open>k\<close>. Every other rune of \<open>s\<close>, and every invalid byte, equals no ASCII
  byte under folding.
\<close>

fun EqualFold :: "string \<Rightarrow> string \<Rightarrow> bool" where
  "EqualFold [] [] = True"
| "EqualFold [] (tr # t) = False"
| "EqualFold (sr # s) [] = False"
| "EqualFold (sr # s) (tr # t) =
     (if toLowerByte sr = toLowerByte tr then EqualFold s t
      else if toLowerByte tr = CHR ''s'' \<and> sr = CHR 0xC5 \<and> take 1 s = [CHR 0xBF] then EqualFold (drop 1 s) t
      else if toLowerByte tr = CHR ''k'' \<and> sr = CHR 0xE2 \<and> take 2 s = [CHR 0x84, CHR 0xAA] then EqualFold (drop 2 s) t
      else False)"

text \<open>
  \<open>strings.ToLower\<close> on ASCII text. On other text Go lower-cases rune by rune, and the only
  runes outside ASCII with an ASCII lower case are U+0130 (\<open>i\<close>) and U+212A (\<open>k\<close>): the
  result then equals neither \<open>.jpg\<close> nor \<open>.jpeg\<close>, just as here, where a byte outside ASCII
  stays.
\<close>

definition ToLower :: "string \<Rightarrow> string" where
  "ToLower s = map toLowerByte s"

subsection \<open>Package \<open>path/filepath\<close> on Unix\<close>

abbreviation SLASH :: char where "SLASH \<equiv> CHR 0x2F"
abbreviation DOT :: char where "DOT \<equiv> CHR 0x2E"

text \<open>
  \<open>filepath.Ext\<close>: the loop runs from the last byte down to the last separator and returns
  the text from the first dot it meets. \<open>extLoop\<close> walks the reversed path and collects the
  bytes it has passed.
\<close>

fun extLoop :: "string \<Rightarrow> string \<Rightarrow> string" where
  "extLoop [] passed = []"
| "extLoop (c # front) passed =
     (if c = SLASH then []
      else if c = DOT then c # passed
      else extLoop front (c # passed))"

definition Ext :: "string \<Rightarrow> string" where
  "Ext path = extLoop (rev path) []"

definition IsAbs :: "string \<Rightarrow> bool" where
  "IsAbs path = HasPrefix path [SLASH]"

text \<open>
  \<open>filepath.Clean\<close>, by its documented rules: separators are merged, \<open>.\<close> elements are
  dropped, an inner \<open>..\<close> is dropped with the element before it, a \<open>..\<close> that starts a rooted
  path is dropped, and the empty result is \<open>.\<close>.
\<close>

fun splitSlash :: "string \<Rightarrow> string list" where
  "splitSlash [] = [[]]"
| "splitSlash (c # s) =
     (if c = SLASH then [] # splitSlash s
      else (case splitSlash s of [] \<Rightarrow> [[c]] | e # es \<Rightarrow> (c # e) # es))"

fun joinSlash :: "string list \<Rightarrow> string" where
  "joinSlash [] = []"
| "joinSlash [e] = e"
| "joinSlash (e # e' # es) = e @ [SLASH] @ joinSlash (e' # es)"

fun cleanElems :: "bool \<Rightarrow> string list \<Rightarrow> string list \<Rightarrow> string list" where
  "cleanElems rooted out [] = rev out"
| "cleanElems rooted out (e # es) =
     (if e = [] \<or> e = ''.'' then cleanElems rooted out es
      else if e = ''..'' then
        (case out of
           [] \<Rightarrow> if rooted then cleanElems rooted out es else cleanElems rooted (e # out) es
         | prev # out' \<Rightarrow>
             if prev = ''..'' then cleanElems rooted (e # out) es else cleanElems rooted out' es)
      else cleanElems rooted (e # out) es)"

definition Clean :: "string \<Rightarrow> string" where
  "Clean path =
     (if path = [] then ''.''
      else let rooted = HasPrefix path [SLASH];
               body = joinSlash (cleanElems rooted [] (splitSlash path))
           in if rooted then SLASH # body else if body = [] then ''.'' else body)"

definition Join :: "string list \<Rightarrow> string" where
  "Join elem =
     (case dropWhile (\<lambda>e. e = []) elem of
        [] \<Rightarrow> []
      | es \<Rightarrow> Clean (joinSlash es))"

definition Abs :: "(error + string) \<Rightarrow> string \<Rightarrow> error + string" where
  "Abs Getwd path =
     (if IsAbs path then Inr (Clean path)
      else case Getwd of Inl err \<Rightarrow> Inl err | Inr wd \<Rightarrow> Inr (Join [wd, path]))"

section \<open>The program\<close>

definition csvFilename :: string where
  "csvFilename = ''bilder.csv''"

subsection \<open>\<open>isJPEG\<close> and \<open>headerIndex\<close>\<close>

definition isJPEG :: "string \<Rightarrow> bool" where
  "isJPEG name = (let ext = ToLower (Ext name) in ext = ''.jpg'' \<or> ext = ''.jpeg'')"

text \<open>The loop \<open>for i, value := range header\<close> of \<open>headerIndex\<close>, from index \<open>i\<close> on.\<close>

fun headerIndexFrom :: "int \<Rightarrow> string list \<Rightarrow> string \<Rightarrow> int" where
  "headerIndexFrom i [] name = -1"
| "headerIndexFrom i (v # header) name =
     (if EqualFold (TrimSpace v) name then i else headerIndexFrom (i + 1) header name)"

definition headerIndex :: "string list \<Rightarrow> string \<Rightarrow> int" where
  "headerIndex header name = headerIndexFrom 0 header name"

subsection \<open>\<open>readTitle\<close>\<close>

text \<open>
  What the JPEG library answers, as far as \<open>readTitle\<close> asks: \<open>ParseFile\<close> of a path gives
  an error or a segment list; \<open>Exif\<close> of a segment list gives an error (\<open>ErrNoExif\<close> when
  the file holds no EXIF segment, another error when the segment cannot be parsed) or
  the root IFD;
  \<open>FindTagWithName\<close> gives an error or the entries found; \<open>Value\<close> of an entry gives an
  error or a value of one of the dynamic types the type switch tells apart.
\<close>

datatype tagValue =
  StringValue string | StringSliceValue "string list" | BytesValue string | BytesSliceValue "string list" | OtherValue

datatype ifdTagEntry = IfdTagEntry (Value: "error + tagValue")

datatype ifd = Ifd (FindTagWithName: "string \<Rightarrow> error + ifdTagEntry list")

datatype segmentList = SegmentList (Exif: "error + ifd")

datatype jpegMediaParser = JpegMediaParser (ParseFile: "string \<Rightarrow> error + segmentList")

definition readTitle :: "jpegMediaParser \<Rightarrow> string \<Rightarrow> error + string" where
  "readTitle mp path =
     (case ParseFile mp path of
        Inl err \<Rightarrow> Inl (Wrapf ''parse JPEG'' err)
      | Inr sl \<Rightarrow>
          (case Exif sl of
             Inl err \<Rightarrow> Inl (Wrapf ''parse EXIF'' err)
           | Inr rootIfd \<Rightarrow>
               (case FindTagWithName rootIfd ''ImageDescription'' of
                  Inl err \<Rightarrow> Inr []
                | Inr results \<Rightarrow>
                    if length results = 0 then Inr []
                    else (case Value (results ! 0) of
                            Inl err \<Rightarrow> Inr []
                          | Inr v \<Rightarrow>
                              (case v of
                                 StringValue title \<Rightarrow> Inr title
                               | StringSliceValue title \<Rightarrow>
                                   if length title > 0 then Inr (title ! 0) else Inr []
                               | BytesValue title \<Rightarrow> Inr title
                               | BytesSliceValue title \<Rightarrow>
                                   if length title > 0 then Inr (title ! 0) else Inr []
                               | OtherValue \<Rightarrow> Inr [])))))"

subsection \<open>\<open>scanDirectory\<close>\<close>

text \<open>
  A directory entry with its name and the two tests the scan makes, \<open>entry.IsDir()\<close> and
  \<open>entry.Type().IsRegular()\<close>. The operating system and the JPEG library are the
  environment of a scan: the listing \<open>os.ReadDir\<close> returns, whether \<open>os.Create\<close> fails, what
  \<open>os.Getwd\<close> returns (for \<open>filepath.Abs\<close>), the device under the writer and the JPEG parser.
\<close>

datatype dirEntry = DirEntry (Name: string) (IsDir: bool) (IsRegular: bool)

datatype scanEnv = ScanEnv
  (ReadDir: "string \<Rightarrow> error + dirEntry list")
  (Create: "string \<Rightarrow> error option")
  (Getwd: "error + string")
  (Dev: device)
  (NewJpegMediaParser: jpegMediaParser)

text \<open>The loop \<open>for _, entry := range entries\<close>.\<close>

fun scanLoop :: "scanEnv \<Rightarrow> string \<Rightarrow> dirEntry list \<Rightarrow> csvWriter \<Rightarrow> error option \<times> csvWriter" where
  "scanLoop env absDir [] w = (None, w)"
| "scanLoop env absDir (entry # entries) w =
     (if IsDir entry \<or> \<not> IsRegular entry then scanLoop env absDir entries w
      else let name = Name entry in
        if EqualFold name csvFilename \<or> \<not> isJPEG name then scanLoop env absDir entries w
        else (case readTitle (NewJpegMediaParser env) (Join [absDir, Name entry]) of
                Inl err \<Rightarrow> (Some err, w)
              | Inr title \<Rightarrow>
                  (case Write (Dev env) w [name, title] of
                     (Some err, w') \<Rightarrow> (Some (Wrapf (''write row for '' @ name) err), w')
                   | (None, w') \<Rightarrow> scanLoop env absDir entries w')))"

text \<open>
  \<open>scanDirectory\<close> returns its error, or, when it returns \<open>nil\<close>, the content the sidecar
  file has at that moment: the bytes the file has received. The deferred \<open>file.Close()\<close>
  adds nothing to them, so bytes left in the buffer of the writer would be lost.
\<close>

definition scanDirectory :: "scanEnv \<Rightarrow> string \<Rightarrow> error + string" where
  "scanDirectory env dir0 =
     (let dir = Clean dir0 in
      case ReadDir env dir of
        Inl err \<Rightarrow> Inl (Wrapf ''read directory'' err)
      | Inr entries \<Rightarrow>
          (let csvPath = Join [dir, csvFilename] in
           case Create env csvPath of
             Some err \<Rightarrow> Inl (Wrapf ''create csv'' err)
           | None \<Rightarrow>
               (let w0 = newCSVWriter in
                case Write (Dev env) w0 [''filename'', ''title''] of
                  (Some err, w1) \<Rightarrow> Inl (Wrapf ''write header'' err)
                | (None, w1) \<Rightarrow>
                    (case Abs (Getwd env) dir of
                       Inl err \<Rightarrow> Inl err
                     | Inr absDir \<Rightarrow>
                         (case scanLoop env absDir entries w1 of
                            (Some err, w2) \<Rightarrow> Inl err
                          | (None, w2) \<Rightarrow>
                              (case Flush (Dev env) w2 of
                                 (Some err, w3) \<Rightarrow> Inl (Wrapf ''flush csv'' err)
                               | (None, w3) \<Rightarrow> Inr (wr (writer w3))))))))"

subsection \<open>\<open>applyTitlesFromCSV\<close>\<close>

text \<open>
  The loop \<open>for { record, err := reader.Read() ... }\<close>. The write-caption operation
  \<open>upsertTitle\<close> rewrites a JPEG file through the library: it acts on the files, the state
  \<open>'w\<close>, and may fail. The reader works on the content the sidecar file had when it was
  opened. The column indices are known to be non-negative when the loop starts.
\<close>

function applyLoop ::
  "(string \<Rightarrow> string \<Rightarrow> 'w \<Rightarrow> error option \<times> 'w) \<Rightarrow> string \<Rightarrow> nat \<Rightarrow> nat \<Rightarrow> csvReader \<Rightarrow> 'w \<Rightarrow> error option \<times> 'w"
where
  "applyLoop upsertTitle dir filenameIdx titleIdx reader w =
     (case Read reader of
        (Inl err, reader') \<Rightarrow>
          if err = EOF then (None, w) else (Some (Wrapf ''read record'' err), w)
      | (Inr record, reader') \<Rightarrow>
          if filenameIdx \<ge> length record then applyLoop upsertTitle dir filenameIdx titleIdx reader' w
          else let filename = TrimSpace (record ! filenameIdx) in
            if filename = [] then applyLoop upsertTitle dir filenameIdx titleIdx reader' w
            else let title = (if titleIdx < length record then record ! titleIdx else []);
                     path = (if \<not> IsAbs filename then Join [dir, filename] else filename)
                 in (case upsertTitle path title w of
                       (Some err, w') \<Rightarrow> (Some (Wrapf (''apply title for '' @ filename) err), w')
                     | (None, w') \<Rightarrow> applyLoop upsertTitle dir filenameIdx titleIdx reader' w'))"
  by pat_completeness auto
termination
proof -
  have shorter: "remaining y < remaining reader"
    if "(x, y) = Read reader" "x = Inr b" for x y reader b
  proof (cases reader)
    case (CsvReader input)
    with that obtain line where s: "Scan (CsvReader input) = (Inr line, y)"
      by (auto simp: Read_def Let_def split: prod.splits sum.splits)
    then have ne: "input \<noteq> []" by (auto split: if_splits)
    with s have "y = CsvReader (drop (length (takeWhile (\<lambda>c. c \<noteq> LF) input) + 1) input)"
      by (auto simp: Let_def split: if_splits)
    with ne CsvReader show ?thesis by simp
  next
    case (Overlong buffered)
    with that show ?thesis by (auto simp: Read_def Let_def split: sum.splits)
  next
    case Stopped
    with that show ?thesis by (auto simp: Read_def)
  qed
  show ?thesis
  proof (relation "measure (\<lambda>(upsertTitle, dir, filenameIdx, titleIdx, reader, w). remaining reader)",
      goal_cases)
    case 1
    show ?case by simp
  next
    case (2 upsertTitle dir filenameIdx titleIdx reader w x y b)
    from shorter[OF 2(1,2)] show ?case by simp
  next
    case (3 upsertTitle dir filenameIdx titleIdx reader w x y b xa)
    from shorter[OF 3(1,2)] show ?case by simp
  next
    case (4 upsertTitle dir filenameIdx titleIdx reader w x y b xa xb xc xd ya)
    from shorter[OF 4(1,2)] show ?case by simp
  qed
qed

declare applyLoop.simps [simp del]

definition applyTitlesFromCSV ::
  "(string \<Rightarrow> error + string) \<Rightarrow> (string \<Rightarrow> string \<Rightarrow> 'w \<Rightarrow> error option \<times> 'w) \<Rightarrow> string \<Rightarrow> 'w \<Rightarrow> error option \<times> 'w"
where
  "applyTitlesFromCSV Open upsertTitle dir0 w =
     (let dir = Clean dir0;
          csvPath = Join [dir, csvFilename]
      in case Open csvPath of
           Inl err \<Rightarrow> (Some (Wrapf ''open csv'' err), w)
         | Inr file \<Rightarrow>
             (let reader = newCSVReader file in
              case Read reader of
                (Inl err, reader') \<Rightarrow> (Some (Wrapf ''read header'' err), w)
              | (Inr header, reader') \<Rightarrow>
                  (let filenameIdx = headerIndex header ''filename'';
                       titleIdx = headerIndex header ''title''
                   in if filenameIdx = -1 \<or> titleIdx = -1
                      then (Some (Errorf ''csv must include filename and title columns''), w)
                      else applyLoop upsertTitle dir (nat filenameIdx) (nat titleIdx) reader' w)))"

section \<open>The vocabulary of the specification\<close>

text \<open>
  The quoted form of a field as the specification words it: the field between two double
  quotes, every double quote inside doubled. \<open>wrapped\<close> recognises a text that starts and
  ends with a double quote, \<open>joinFields\<close> joins encoded fields with commas.
  \<open>reliable\<close> is a device on which no write to the file fails. The bytes a writer has
  \<open>accepted\<close> are those the file has received, followed by those in the buffer. \<open>Encode\<close>
  is the text \<open>csvWriter.Write\<close> appends for a record on a reliable device, and \<open>Decode\<close>
  is the first \<open>csvReader.Read\<close> of a text.
\<close>

definition quoted :: "string \<Rightarrow> string" where
  "quoted field = [DQ] @ concat (map (\<lambda>c. if c = DQ then [DQ, DQ] else [c]) field) @ [DQ]"

fun joinFields :: "string list \<Rightarrow> string" where
  "joinFields [] = []"
| "joinFields [x] = x"
| "joinFields (x # y # zs) = x @ [COMMA] @ joinFields (y # zs)"

definition reliable :: device where
  "reliable = Device (\<lambda>_ _. None)"

definition accepted :: "csvWriter \<Rightarrow> string" where
  "accepted w = wr (writer w) @ buf (writer w)"

definition Encode :: "string list \<Rightarrow> string" where
  "Encode record = accepted (snd (Write reliable newCSVWriter record))"

definition Decode :: "string \<Rightarrow> error + string list" where
  "Decode text = fst (Read (newCSVReader text))"

definition wrapped :: "string \<Rightarrow> bool" where
  "wrapped s = (length s \<ge> 2 \<and> hd s = DQ \<and> last s = DQ)"

text \<open>
  \<open>table header rows\<close> is the text of a sidecar file with that header and those rows, as
  \<open>Write\<close> produces it.
\<close>

definition table :: "string list \<Rightarrow> string list list \<Rightarrow> string" where
  "table header rows = Encode header @ concat (map Encode rows)"

text \<open>
  \<open>decodedRows reader\<close> are the records that successive calls of \<open>Read\<close> return, up to the first
  call that fails or reports the end of the input. \<open>callFor\<close> is the write-caption call the
  specification asks for a row: to the path of the trimmed filename, the filename itself
  when it is absolute and else joined to the directory, with the title field as it was
  decoded, or the empty title when the row has no title field.
\<close>

function decodedRows :: "csvReader \<Rightarrow> string list list" where
  "decodedRows reader =
     (case Read reader of
        (Inl err, reader') \<Rightarrow> []
      | (Inr rc, reader') \<Rightarrow> rc # decodedRows reader')"
  by pat_completeness auto
termination
proof (relation "measure remaining", goal_cases)
  case 1
  show ?case by simp
next
  case (2 reader x y b)
  then have r: "Read reader = (Inr b, y)" by simp
  show ?case
  proof (cases reader)
    case (CsvReader input)
    with r obtain line where s: "Scan (CsvReader input) = (Inr line, y)"
      by (auto simp: Read_def Let_def split: prod.splits sum.splits)
    then have ne: "input \<noteq> []" by (auto split: if_splits)
    with s have "y = CsvReader (drop (length (takeWhile (\<lambda>c. c \<noteq> LF) input) + 1) input)"
      by (auto simp: Let_def split: if_splits)
    with ne CsvReader show ?thesis by simp
  next
    case (Overlong buffered)
    with r show ?thesis by (auto simp: Read_def Let_def split: sum.splits)
  next
    case Stopped
    with r show ?thesis by (auto simp: Read_def)
  qed
qed

declare decodedRows.simps [simp del]

definition callFor :: "string \<Rightarrow> nat \<Rightarrow> nat \<Rightarrow> string list \<Rightarrow> string \<times> string" where
  "callFor dir filenameIdx titleIdx rc =
     (if IsAbs (TrimSpace (rc ! filenameIdx)) then TrimSpace (rc ! filenameIdx)
      else Join [dir, TrimSpace (rc ! filenameIdx)],
      if titleIdx < length rc then rc ! titleIdx else [])"


text \<open>
  To tell which write-caption calls a run makes, \<open>logged\<close> lets any write-caption
  operation keep a list of the calls it receives, path and title, in the order they come.
\<close>

definition logged ::
  "(string \<Rightarrow> string \<Rightarrow> 'w \<Rightarrow> error option \<times> 'w) \<Rightarrow>
   string \<Rightarrow> string \<Rightarrow> 'w \<times> (string \<times> string) list \<Rightarrow> error option \<times> 'w \<times> (string \<times> string) list"
where
  "logged upsertTitle path title s =
     (case upsertTitle path title (fst s) of (err, w') \<Rightarrow> (err, (w', snd s @ [(path, title)])))"

definition succeed :: "string \<Rightarrow> string \<Rightarrow> unit \<Rightarrow> error option \<times> unit" where
  "succeed path title w = (None, ())"

text \<open>
  An entry of the listing qualifies for a row when it is a regular file, its extension is
  \<open>.jpg\<close> or \<open>.jpeg\<close> in any mix of upper and lower case, and its name is not the sidecar
  filename in any case. The extension of a name is its last dot with the text after it,
  and a name without a dot has none. Two texts are the same but for case when they have
  the same length and, place by place, their bytes are equal or are the two cases of one
  ASCII letter. \<open>caption\<close> is the title \<open>readTitle\<close> returns for an entry and \<open>sidecar\<close> the
  file the specification asks for: the header row and one row per qualifying entry, in
  the order of the listing.
\<close>

definition sameLetter :: "char \<Rightarrow> char \<Rightarrow> bool" where
  "sameLetter a b =
     (a = b \<or> (a, b) \<in> set (zip ''ABCDEFGHIJKLMNOPQRSTUVWXYZ'' ''abcdefghijklmnopqrstuvwxyz'')
            \<or> (b, a) \<in> set (zip ''ABCDEFGHIJKLMNOPQRSTUVWXYZ'' ''abcdefghijklmnopqrstuvwxyz''))"

definition extension :: "string \<Rightarrow> string" where
  "extension name =
     (if DOT \<in> set name then DOT # rev (takeWhile (\<lambda>c. c \<noteq> DOT) (rev name)) else [])"

definition jpegExtension :: "string \<Rightarrow> bool" where
  "jpegExtension name =
     (list_all2 sameLetter (extension name) ''.jpg'' \<or> list_all2 sameLetter (extension name) ''.jpeg'')"

definition qualifying :: "dirEntry \<Rightarrow> bool" where
  "qualifying entry =
     (IsRegular entry \<and> \<not> IsDir entry \<and> jpegExtension (Name entry) \<and> \<not> EqualFold (Name entry) csvFilename)"

definition caption :: "scanEnv \<Rightarrow> string \<Rightarrow> dirEntry \<Rightarrow> string" where
  "caption env absDir entry =
     (case readTitle (NewJpegMediaParser env) (Join [absDir, Name entry]) of Inr title \<Rightarrow> title | Inl err \<Rightarrow> [])"

definition sidecar :: "scanEnv \<Rightarrow> string \<Rightarrow> dirEntry list \<Rightarrow> string" where
  "sidecar env absDir entries =
     Encode [''filename'', ''title''] @
     concat (map (\<lambda>entry. Encode [Name entry, caption env absDir entry]) (filter qualifying entries))"

text \<open>
  The directory of the specification's end-to-end scenario, with four more entries: the
  picture \<open>B.JPEG\<close> without a caption, an older sidecar file \<open>Bilder.CSV\<close>, the picture
  \<open>a.jpg\<close> with the caption \<open>Sunset\<close>, the file \<open>notes.txt\<close> and a directory named
  \<open>old.jpg\<close>. The listing is in the order of \<open>os.ReadDir\<close>, sorted by filename.
\<close>

definition sunsetDir :: scanEnv where
  "sunsetDir = ScanEnv
     (\<lambda>dir. Inr [DirEntry ''B.JPEG'' False True, DirEntry ''Bilder.CSV'' False True,
                 DirEntry ''a.jpg'' False True, DirEntry ''notes.txt'' False True,
                 DirEntry ''old.jpg'' True False])
     (\<lambda>path. None)
     (Inr ''/home'')
     reliable
     (JpegMediaParser (\<lambda>path.
        if path = ''/home/d/a.jpg''
        then Inr (SegmentList (Inr (Ifd (\<lambda>name. Inr [IfdTagEntry (Inr (StringValue ''Sunset''))]))))
        else Inr (SegmentList (Inr (Ifd (\<lambda>name. Inl (External ''tag not found'')))))))"

section \<open>Properties of the codec\<close>

lemma ContainsAny_iff: "ContainsAny s chars \<longleftrightarrow> (\<exists>c \<in> set s. c \<in> set chars)"
  by (simp add: ContainsAny_def)

lemma ReplaceAll_Nil: "ReplaceAll [] old new = []"
  by (simp add: ReplaceAll.simps)

lemma ReplaceAll_Cons1:
  "ReplaceAll (c # s) [d] new = (if c = d then new @ ReplaceAll s [d] new else c # ReplaceAll s [d] new)"
  by (subst ReplaceAll.simps) (simp add: HasPrefix_def)

lemma ReplaceAll_DQ: "ReplaceAll s [DQ] [DQ, DQ] = concat (map (\<lambda>c. if c = DQ then [DQ, DQ] else [c]) s)"
  by (induction s) (simp_all add: ReplaceAll_Nil ReplaceAll_Cons1)

lemma parseLoop_escaped:
  "parseLoop (ReplaceAll t [DQ] [DQ, DQ] @ rest) fields field True = parseLoop rest fields (field @ t) True"
  by (induction t arbitrary: field) (simp_all add: ReplaceAll_Nil ReplaceAll_Cons1)

lemma parseLoop_plain:
  "DQ \<notin> set t \<Longrightarrow> COMMA \<notin> set t \<Longrightarrow>
   parseLoop (t @ rest) fields field False = parseLoop rest fields (field @ t) False"
proof (induction t arbitrary: field)
  case Nil
  then show ?case by simp
next
  case (Cons a t)
  then have "a \<noteq> DQ" "a \<noteq> COMMA" by auto
  with Cons show ?case by simp
qed

lemma parseLoop_encoded:
  assumes "rest = [] \<or> hd rest \<noteq> DQ"
  shows "parseLoop (encodeCSVField t @ rest) fields field False = parseLoop rest fields (field @ t) False"
proof (cases "ContainsAny t [DQ, COMMA, LF, CR]")
  case False
  then have "DQ \<notin> set t" "COMMA \<notin> set t" by (auto simp: ContainsAny_iff)
  then show ?thesis using False by (simp add: encodeCSVField_def parseLoop_plain)
next
  case True
  have "parseLoop ([DQ] @ ReplaceAll t [DQ] [DQ, DQ] @ [DQ] @ rest) fields field False =
        parseLoop (ReplaceAll t [DQ] [DQ, DQ] @ [DQ] @ rest) fields field True" by simp
  also have "\<dots> = parseLoop ([DQ] @ rest) fields (field @ t) True" by (rule parseLoop_escaped)
  also have "\<dots> = parseLoop rest fields (field @ t) False" using assms by (cases rest) auto
  finally show ?thesis using True by (simp add: encodeCSVField_def)
qed

lemma encodeCSVField_cases:
  "encodeCSVField f = (if DQ \<in> set f \<or> COMMA \<in> set f \<or> LF \<in> set f \<or> CR \<in> set f then quoted f else f)"
  by (auto simp: encodeCSVField_def ContainsAny_iff quoted_def ReplaceAll_DQ)

lemma joinFields_Cons: "joinFields (x # xs) = x @ concat (map (\<lambda>f. COMMA # f) xs)"
  by (induction xs arbitrary: x) simp_all

lemma WriterFlush_ok:
  "WriterFlush dev b = (None, b') \<Longrightarrow> wr b' = wr b @ buf b \<and> buf b' = []"
  by (auto simp: WriterFlush_def split: if_splits option.splits)

lemma WriterFlush_reliable: "fst (WriterFlush reliable b) = None"
  by (simp add: WriterFlush_def reliable_def)

lemma WriteString_ok:
  "WriteString dev b s = (None, b') \<Longrightarrow> wr b' @ buf b' = wr b @ buf b @ s"
proof (induction dev b s rule: WriteString.induct)
  case (1 dev b s)
  show ?case
  proof (cases "length s > Available b")
    case False
    with "1.prems" show ?thesis by (subst (asm) WriteString.simps) auto
  next
    case True
    show ?thesis
    proof (cases "buf b = []")
      case e: True
      from "1.prems" True e have fw: "FileWrite dev (wr b) s = None"
        and rc: "WriteString dev (BufioWriter (wr b @ s) []) [] = (None, b')"
        by (subst (asm) WriteString.simps, auto split: option.splits)+
      from "1.IH"(1)[OF True e fw rc] e show ?thesis by simp
    next
      case ne: False
      let ?b1 = "BufioWriter (wr b) (buf b @ take (Available b) s)"
      from "1.prems" True ne obtain b2 where fl: "WriterFlush dev ?b1 = (None, b2)"
        and rc: "WriteString dev b2 (drop (Available b) s) = (None, b')"
        by (subst (asm) WriteString.simps) (auto split: option.splits prod.splits)
      from WriterFlush_ok[OF fl] have b2: "wr b2 = wr b @ buf b @ take (Available b) s" "buf b2 = []"
        by simp_all
      from "1.IH"(2)[OF True ne fl[symmetric] refl rc] b2 show ?thesis by simp
    qed
  qed
qed

lemma WriteString_reliable: "fst (WriteString reliable b s) = None"
proof (induction reliable b s rule: WriteString.induct)
  case (1 b s)
  show ?case
  proof (cases "length s > Available b")
    case False
    then show ?thesis by (subst WriteString.simps) auto
  next
    case True
    show ?thesis
    proof (cases "buf b = []")
      case e: True
      have fw: "FileWrite reliable (wr b) s = None" by (simp add: reliable_def)
      from "1.hyps"(1)[OF True e fw] True e fw show ?thesis by (subst WriteString.simps) simp
    next
      case ne: False
      let ?b1 = "BufioWriter (wr b) (buf b @ take (Available b) s)"
      obtain x b2 where fl: "WriterFlush reliable ?b1 = (x, b2)" by (cases "WriterFlush reliable ?b1")
      with WriterFlush_reliable[of ?b1] have x: "x = None" by simp
      from "1.hyps"(2)[OF True ne fl[symmetric] x] True ne fl x show ?thesis
        by (subst WriteString.simps) simp
    qed
  qed
qed

lemma writeString_ok:
  "writeString dev w v = (None, w') \<Longrightarrow> accepted w' = accepted w @ v"
  using WriteString_ok[of dev "writer w" v "writer w'"]
  by (auto simp: writeString_def accepted_def split: prod.splits)

lemma writeString_reliable: "fst (writeString reliable w v) = None"
  using WriteString_reliable[of "writer w" v] by (auto simp: writeString_def split: prod.splits)

lemma Flush_ok:
  "Flush dev w = (None, w') \<Longrightarrow> wr (writer w') = accepted w \<and> buf (writer w') = []"
  using WriterFlush_ok[of dev "writer w" "writer w'"]
  by (auto simp: Flush_def accepted_def split: prod.splits)

lemma Flush_reliable: "fst (Flush reliable w) = None"
  using WriterFlush_reliable[of "writer w"] by (auto simp: Flush_def split: prod.splits)

lemma writeFields_ok:
  "writeFields dev i record w = (None, w') \<Longrightarrow>
   accepted w' = accepted w @ (if i > 0 then concat (map (\<lambda>f. COMMA # encodeCSVField f) record)
                               else joinFields (map encodeCSVField record))"
proof (induction "record" arbitrary: i w)
  case Nil
  then show ?case by simp
next
  case (Cons f fs)
  show ?case
  proof (cases "i > 0")
    case True
    with Cons.prems obtain w1 w2 where
      a: "writeString dev w [COMMA] = (None, w1)" and
      b: "writeString dev w1 (encodeCSVField f) = (None, w2)" and
      c: "writeFields dev (i + 1) fs w2 = (None, w')"
      by (auto split: prod.splits option.splits)
    from a have "accepted w1 = accepted w @ [COMMA]" by (rule writeString_ok)
    moreover from b have "accepted w2 = accepted w1 @ encodeCSVField f" by (rule writeString_ok)
    moreover from Cons.IH[OF c] have "accepted w' = accepted w2 @ concat (map (\<lambda>f. COMMA # encodeCSVField f) fs)" by simp
    ultimately show ?thesis using True by simp
  next
    case False
    with Cons.prems obtain w2 where
      b: "writeString dev w (encodeCSVField f) = (None, w2)" and
      c: "writeFields dev (i + 1) fs w2 = (None, w')"
      by (auto split: prod.splits option.splits)
    from b have "accepted w2 = accepted w @ encodeCSVField f" by (rule writeString_ok)
    moreover from Cons.IH[OF c] have "accepted w' = accepted w2 @ concat (map (\<lambda>f. COMMA # encodeCSVField f) fs)" by simp
    ultimately show ?thesis using False by (simp add: joinFields_Cons comp_def)
  qed
qed

lemma Write_ok:
  assumes "Write dev w record = (None, w')"
  shows "accepted w' = accepted w @ joinFields (map encodeCSVField record) @ [LF]"
proof -
  from assms obtain w1 where a: "writeFields dev 0 record w = (None, w1)" and b: "writeString dev w1 [LF] = (None, w')"
    by (auto simp: Write_def split: prod.splits option.splits)
  from writeFields_ok[OF a] have "accepted w1 = accepted w @ joinFields (map encodeCSVField record)" by simp
  moreover from b have "accepted w' = accepted w1 @ [LF]" by (rule writeString_ok)
  ultimately show ?thesis by simp
qed

lemma writeFields_reliable: "fst (writeFields reliable i record w) = None"
proof (induction "record" arbitrary: i w)
  case Nil
  show ?case by simp
next
  case (Cons f fs)
  obtain w1 where a: "(if i > 0 then writeString reliable w [COMMA] else (None, w)) = (None, w1)"
  proof (cases "i > 0")
    case True
    obtain e w1 where x: "writeString reliable w [COMMA] = (e, w1)" by (cases "writeString reliable w [COMMA]")
    with writeString_reliable[of w "[COMMA]"] have "e = None" by simp
    with x True that show ?thesis by simp
  next
    case False
    with that show ?thesis by simp
  qed
  obtain w2 where b: "writeString reliable w1 (encodeCSVField f) = (None, w2)"
    using writeString_reliable[of w1 "encodeCSVField f"] by (cases "writeString reliable w1 (encodeCSVField f)") auto
  have "writeFields reliable i (f # fs) w = writeFields reliable (i + 1) fs w2"
    unfolding writeFields.simps a by (simp add: b)
  with Cons.IH[of "i + 1" w2] show ?case by simp
qed

lemma Write_reliable: "fst (Write reliable w record) = None"
proof -
  obtain e w1 where a: "writeFields reliable 0 record w = (e, w1)" by (cases "writeFields reliable 0 record w")
  with writeFields_reliable[of 0 "record" w] have "e = None" by simp
  with a show ?thesis using writeString_reliable[of w1 "[LF]"] by (simp add: Write_def)
qed

lemma accepted_new: "accepted newCSVWriter = []"
  by (simp add: accepted_def newCSVWriter_def)

lemma Encode_eq: "Encode record = joinFields (map encodeCSVField record) @ [LF]"
proof -
  obtain e w' where a: "Write reliable newCSVWriter record = (e, w')" by (cases "Write reliable newCSVWriter record")
  with Write_reliable[of newCSVWriter "record"] have "e = None" by simp
  with a Write_ok[of reliable newCSVWriter "record" w'] show ?thesis by (simp add: Encode_def accepted_new)
qed

lemma set_encodeCSVField: "set (encodeCSVField f) \<subseteq> insert DQ (set f)"
  by (auto simp: encodeCSVField_cases quoted_def split: if_splits)

lemma encodeCSVField_last: "encodeCSVField f = [] \<or> (last (encodeCSVField f) \<noteq> LF \<and> last (encodeCSVField f) \<noteq> CR)"
  by (cases f rule: rev_cases) (auto simp: encodeCSVField_cases quoted_def)

lemma parseLoop_flag: "snd (snd (parseLoop line fields field q)) = (q \<noteq> odd (count_list line DQ))"
proof (induction line fields field q rule: parseLoop.induct)
  case (1 fields field inQuotes)
  then show ?case by simp
next
  case (2 ch rest fields field inQuotes)
  show ?case
  proof (cases "ch = DQ \<and> inQuotes \<and> rest \<noteq> [] \<and> hd rest = DQ")
    case True
    then obtain rest' where r: "rest = DQ # rest'" by (cases rest) auto
    with True 2(1) show ?thesis by simp
  next
    case False
    with 2(2-5) show ?thesis by (auto split: if_splits)
  qed
qed

lemma parseLoop_joined:
  "fs \<noteq> [] \<Longrightarrow>
   parseLoop (joinFields (map encodeCSVField fs)) fields [] False = (fields @ butlast fs, last fs, False)"
proof (induction fs arbitrary: fields rule: joinFields.induct)
  case 1
  then show ?case by simp
next
  case (2 x)
  show ?case using parseLoop_encoded[of "[]" x fields "[]"] by simp
next
  case (3 x y zs)
  have "parseLoop (encodeCSVField x @ (COMMA # joinFields (map encodeCSVField (y # zs)))) fields [] False =
        parseLoop (COMMA # joinFields (map encodeCSVField (y # zs))) fields ([] @ x) False"
    by (rule parseLoop_encoded) simp
  also have "\<dots> = parseLoop (joinFields (map encodeCSVField (y # zs))) (fields @ [x]) [] False" by simp
  also have "\<dots> = ((fields @ [x]) @ butlast (y # zs), last (y # zs), False)" by (rule 3) simp
  finally show ?case by simp
qed

lemma parseCSVLine_joined:
  "fs \<noteq> [] \<Longrightarrow> parseCSVLine (joinFields (map encodeCSVField fs)) = Inr fs"
  by (simp add: parseCSVLine_def parseLoop_joined)

lemma joinFields_last:
  "joinFields (map encodeCSVField fs) = [] \<or>
   (last (joinFields (map encodeCSVField fs)) \<noteq> LF \<and> last (joinFields (map encodeCSVField fs)) \<noteq> CR)"
proof (induction fs rule: joinFields.induct)
  case 1
  then show ?case by simp
next
  case (2 x)
  then show ?case using encodeCSVField_last[of x] by simp
next
  case (3 x y zs)
  then show ?case by auto
qed

lemma set_joinFields: "set (joinFields fs) \<subseteq> insert COMMA (\<Union> (set ` set fs))"
  by (induction fs rule: joinFields.induct) auto

lemma joinFields_no_LF:
  assumes "\<forall>f \<in> set fs. LF \<notin> set f"
  shows "LF \<notin> set (joinFields (map encodeCSVField fs))"
proof
  assume "LF \<in> set (joinFields (map encodeCSVField fs))"
  with set_joinFields[of "map encodeCSVField fs"] obtain f where "f \<in> set fs" "LF \<in> set (encodeCSVField f)"
    by auto
  with set_encodeCSVField[of f] assms show False by auto
qed

lemma dropCR_id: "l = [] \<or> last l \<noteq> CR \<Longrightarrow> dropCR l = l"
  by (auto simp: dropCR_def)

lemma HasSuffix_single: "HasSuffix l [c] \<longleftrightarrow> l \<noteq> [] \<and> last l = c"
  by (cases l rule: rev_cases) (auto simp: HasSuffix_def)

lemma TrimSuffix_id: "l = [] \<or> last l \<noteq> CR \<Longrightarrow> TrimSuffix l [CR] = l"
  by (auto simp: TrimSuffix_def HasSuffix_single)

lemma takeWhile_line: "LF \<notin> set l \<Longrightarrow> takeWhile (\<lambda>c. c \<noteq> LF) (l @ LF # rest) = l"
  by (induction l) auto

lemma Scan_line:
  "LF \<notin> set l \<Longrightarrow> length l < maxScanTokenSize \<Longrightarrow>
   Scan (CsvReader (l @ LF # rest)) = (Inr (dropCR l), CsvReader rest)"
  by (simp add: takeWhile_line Let_def)

lemma Scan_too_long:
  "LF \<notin> set l \<Longrightarrow> length l \<ge> maxScanTokenSize \<Longrightarrow>
   Scan (CsvReader (l @ LF # rest)) = (Inl ErrTooLong, Overlong (take maxScanTokenSize l))"
  by (simp add: takeWhile_line Let_def)

lemma Read_Scan:
  "Scan r = (Inr l, r') \<Longrightarrow> Read r = (parseCSVLine (TrimSuffix l [CR]), r')"
  by (auto simp: Read_def TrimSuffix_def split: sum.splits)

lemma Read_too_long:
  "LF \<notin> set l \<Longrightarrow> length l \<ge> maxScanTokenSize \<Longrightarrow>
   Read (CsvReader (l @ LF # rest)) = (Inl ErrTooLong, Overlong (take maxScanTokenSize l))"
  using Scan_too_long[of l rest] by (simp add: Read_def del: Scan.simps)

lemma Read_line:
  "LF \<notin> set l \<Longrightarrow> length l < maxScanTokenSize \<Longrightarrow>
   Read (CsvReader (l @ LF # rest)) = (parseCSVLine (TrimSuffix (dropCR l) [CR]), CsvReader rest)"
  by (simp add: Read_Scan[OF Scan_line])

lemma Read_Encode:
  assumes "fs \<noteq> []" "\<forall>f \<in> set fs. LF \<notin> set f" "length (Encode fs) \<le> maxScanTokenSize"
  shows "Read (CsvReader (Encode fs @ rest)) = (Inr fs, CsvReader rest)"
proof -
  let ?l = "joinFields (map encodeCSVField fs)"
  have a: "LF \<notin> set ?l" using assms(2) by (rule joinFields_no_LF)
  have b: "length ?l < maxScanTokenSize" using assms(3) by (simp add: Encode_eq)
  have c: "?l = [] \<or> last ?l \<noteq> CR" using joinFields_last[of fs] by auto
  have "Read (CsvReader (?l @ LF # rest)) = (parseCSVLine (TrimSuffix (dropCR ?l) [CR]), CsvReader rest)"
    using a b by (rule Read_line)
  also have "TrimSuffix (dropCR ?l) [CR] = ?l" using c by (simp add: dropCR_id TrimSuffix_id)
  finally show ?thesis using assms(1) by (simp add: Encode_eq parseCSVLine_joined)
qed

lemma wrapped_encodeCSVField:
  "wrapped (encodeCSVField field) = (DQ \<in> set field \<or> COMMA \<in> set field \<or> LF \<in> set field \<or> CR \<in> set field)"
proof (cases "DQ \<in> set field \<or> COMMA \<in> set field \<or> LF \<in> set field \<or> CR \<in> set field")
  case True
  then show ?thesis by (simp add: encodeCSVField_cases quoted_def wrapped_def)
next
  case False
  then have "encodeCSVField field = field" "DQ \<notin> set field" by (simp_all add: encodeCSVField_cases)
  moreover have "wrapped field \<Longrightarrow> DQ \<in> set field" by (cases field) (auto simp: wrapped_def)
  ultimately show ?thesis using False by auto
qed

lemma count_dropCR: "count_list (dropCR l) DQ = count_list l DQ"
  by (cases l rule: rev_cases) (auto simp: dropCR_def)

lemma count_TrimSuffix_CR: "count_list (TrimSuffix l [CR]) DQ = count_list l DQ"
  by (cases l rule: rev_cases) (auto simp: TrimSuffix_def HasSuffix_def)

lemma parseCSVLine_unterminated:
  "(parseCSVLine line = Inl (Errorf ''unterminated quoted field'')) = snd (snd (parseLoop line [] [] False))"
  by (auto simp: parseCSVLine_def split: prod.splits)

lemma first_line_unbalanced:
  assumes "LF \<notin> set l" "odd (count_list l DQ)"
  shows "\<exists>e. e \<noteq> EOF \<and> fst (Read (CsvReader (l @ LF # rest))) = Inl e"
proof (cases "length l < maxScanTokenSize")
  case True
  have "odd (count_list (TrimSuffix (dropCR l) [CR]) DQ)" using assms(2) by (simp add: count_TrimSuffix_CR count_dropCR)
  then have "parseCSVLine (TrimSuffix (dropCR l) [CR]) = Inl (Errorf ''unterminated quoted field'')"
    by (simp add: parseCSVLine_unterminated parseLoop_flag)
  then show ?thesis using Read_line[OF assms(1) True, of rest] by simp
next
  case False
  then have "Read (CsvReader (l @ LF # rest)) = (Inl ErrTooLong, Overlong (take maxScanTokenSize l))"
    using assms(1) by (intro Read_too_long) simp_all
  then show ?thesis by simp
qed

section \<open>Properties of the apply loop and of the scan loop\<close>

lemma applyLoop_EOF:
  "Read reader = (Inl EOF, reader') \<Longrightarrow> applyLoop u dir fi ti reader w = (None, w)"
  by (subst applyLoop.simps) simp

lemma applyLoop_error:
  "Read reader = (Inl err, reader') \<Longrightarrow> err \<noteq> EOF \<Longrightarrow>
   applyLoop u dir fi ti reader w = (Some (Wrapf ''read record'' err), w)"
  by (subst applyLoop.simps) simp

lemma applyLoop_short:
  "Read reader = (Inr rc, reader') \<Longrightarrow> length rc \<le> fi \<Longrightarrow>
   applyLoop u dir fi ti reader w = applyLoop u dir fi ti reader' w"
  by (subst applyLoop.simps) simp

lemma applyLoop_blank:
  "Read reader = (Inr rc, reader') \<Longrightarrow> fi < length rc \<Longrightarrow> TrimSpace (rc ! fi) = [] \<Longrightarrow>
   applyLoop u dir fi ti reader w = applyLoop u dir fi ti reader' w"
  by (subst applyLoop.simps) simp

lemma applyLoop_call:
  "Read reader = (Inr rc, reader') \<Longrightarrow> fi < length rc \<Longrightarrow> TrimSpace (rc ! fi) \<noteq> [] \<Longrightarrow>
   applyLoop u dir fi ti reader w =
     (case u (if IsAbs (TrimSpace (rc ! fi)) then TrimSpace (rc ! fi) else Join [dir, TrimSpace (rc ! fi)])
             (if ti < length rc then rc ! ti else []) w of
        (Some err, w') \<Rightarrow> (Some (Wrapf (''apply title for '' @ TrimSpace (rc ! fi)) err), w')
      | (None, w') \<Rightarrow> applyLoop u dir fi ti reader' w')"
  by (subst applyLoop.simps) (simp add: Let_def)

lemma applyLoop_call_as:
  assumes "Read reader = (Inr rc, reader')" "fi < length rc" "TrimSpace (rc ! fi) = fn" "fn \<noteq> []"
    "(if ti < length rc then rc ! ti else []) = title" "(if IsAbs fn then fn else Join [dir, fn]) = p"
  shows "applyLoop u dir fi ti reader w =
     (case u p title w of
        (Some err, w') \<Rightarrow> (Some (Wrapf (''apply title for '' @ fn) err), w')
      | (None, w') \<Rightarrow> applyLoop u dir fi ti reader' w')"
  using assms applyLoop_call[of reader rc reader' fi u dir ti w] by auto

lemmas eval_simps = applyLoop.simps applyTitlesFromCSV_def Read_def maxScanTokenSize_def dropCR_def
  HasSuffix_def HasPrefix_def TrimSuffix_def parseCSVLine_def newCSVReader_def headerIndex_def
  TrimSpace_def TrimLeftSpace.simps TrimRightSpace.simps leadingSpace_def trailingSpace_def whiteSpace_def
  toLowerByte_def Clean_def Join_def IsAbs_def csvFilename_def logged_def succeed_def Let_def

lemma headerIndexFrom_cases:
  "0 \<le> i \<Longrightarrow>
   (headerIndexFrom i header name = -1 \<and> (\<forall>v \<in> set header. \<not> EqualFold (TrimSpace v) name)) \<or>
   (\<exists>k < length header. headerIndexFrom i header name = i + int k \<and>
      EqualFold (TrimSpace (header ! k)) name \<and> (\<forall>j < k. \<not> EqualFold (TrimSpace (header ! j)) name))"
proof (induction header arbitrary: i)
  case Nil
  then show ?case by simp
next
  case (Cons v header)
  show ?case
  proof (cases "EqualFold (TrimSpace v) name")
    case True
    then have "headerIndexFrom i (v # header) name = i + int 0 \<and>
      EqualFold (TrimSpace ((v # header) ! 0)) name \<and> (\<forall>j < 0. \<not> EqualFold (TrimSpace ((v # header) ! j)) name)"
      by simp
    then show ?thesis by blast
  next
    case False
    from Cons.prems have "0 \<le> i + 1" by simp
    from Cons.IH[OF this] show ?thesis
    proof
      assume "headerIndexFrom (i + 1) header name = -1 \<and> (\<forall>v \<in> set header. \<not> EqualFold (TrimSpace v) name)"
      with False show ?thesis by simp
    next
      assume "\<exists>k < length header. headerIndexFrom (i + 1) header name = i + 1 + int k \<and>
        EqualFold (TrimSpace (header ! k)) name \<and> (\<forall>j < k. \<not> EqualFold (TrimSpace (header ! j)) name)"
      then obtain k where k: "k < length header" "headerIndexFrom (i + 1) header name = i + 1 + int k"
        "EqualFold (TrimSpace (header ! k)) name" "\<forall>j < k. \<not> EqualFold (TrimSpace (header ! j)) name"
        by blast
      have "\<forall>j < Suc k. \<not> EqualFold (TrimSpace ((v # header) ! j)) name"
        using False k(4) by (auto simp: less_Suc_eq_0_disj)
      with k False have "Suc k < length (v # header) \<and> headerIndexFrom i (v # header) name = i + int (Suc k) \<and>
        EqualFold (TrimSpace ((v # header) ! Suc k)) name \<and> (\<forall>j < Suc k. \<not> EqualFold (TrimSpace ((v # header) ! j)) name)"
        by simp
      then show ?thesis by blast
    qed
  qed
qed

lemma headerIndex_absent:
  "(headerIndex header name = -1) = (\<forall>v \<in> set header. \<not> EqualFold (TrimSpace v) name)"
  using headerIndexFrom_cases[of 0 header name] by (auto simp: headerIndex_def)

lemma headerIndex_found:
  assumes "headerIndex header name \<noteq> -1"
  shows "0 \<le> headerIndex header name \<and> nat (headerIndex header name) < length header \<and>
    EqualFold (TrimSpace (header ! nat (headerIndex header name))) name \<and>
    (\<forall>j < nat (headerIndex header name). \<not> EqualFold (TrimSpace (header ! j)) name)"
  using headerIndexFrom_cases[of 0 header name] assms by (auto simp: headerIndex_def)

lemma length_Encode_swap: "length (Encode [f, t]) = length (Encode [t, f])"
  by (simp add: Encode_eq)

lemma applyLoop_swap:
  assumes "\<forall>(f, t) \<in> set rs. LF \<notin> set f \<and> LF \<notin> set t \<and> length (Encode [f, t]) \<le> maxScanTokenSize"
  shows "applyLoop u dir 0 1 (CsvReader (concat (map (\<lambda>(f, t). Encode [f, t]) rs))) w =
         applyLoop u dir 1 0 (CsvReader (concat (map (\<lambda>(f, t). Encode [t, f]) rs))) w"
  using assms
proof (induction rs arbitrary: w)
  case Nil
  have "Read (CsvReader []) = (Inl EOF, CsvReader [])" by (simp add: Read_def)
  then show ?case by (simp add: applyLoop_EOF)
next
  case (Cons r rs)
  obtain f t where r: "r = (f, t)" by (cases r)
  let ?c1 = "concat (map (\<lambda>(f, t). Encode [f, t]) rs)"
  let ?c2 = "concat (map (\<lambda>(f, t). Encode [t, f]) rs)"
  from Cons.prems r have h: "LF \<notin> set f" "LF \<notin> set t" "length (Encode [f, t]) \<le> maxScanTokenSize" by auto
  have r1: "Read (CsvReader (Encode [f, t] @ ?c1)) = (Inr [f, t], CsvReader ?c1)"
    using h by (intro Read_Encode) auto
  have r2: "Read (CsvReader (Encode [t, f] @ ?c2)) = (Inr [t, f], CsvReader ?c2)"
    using h length_Encode_swap[of f t] by (intro Read_Encode) auto
  have ih: "applyLoop u dir 0 1 (CsvReader ?c1) w' = applyLoop u dir 1 0 (CsvReader ?c2) w'" for w'
    using Cons.prems by (intro Cons.IH) auto
  show ?case
  proof (cases "TrimSpace f = []")
    case True
    then show ?thesis using r ih
      by (simp add: applyLoop_blank[OF r1] applyLoop_blank[OF r2])
  next
    case False
    then show ?thesis using r ih
      by (simp add: applyLoop_call[OF r1] applyLoop_call[OF r2] split: prod.splits option.splits)
  qed
qed

lemma headerIndex_filename_title:
  "headerIndex [''filename'', ''title''] ''filename'' = 0"
  "headerIndex [''filename'', ''title''] ''title'' = 1"
  "headerIndex [''title'', ''filename''] ''filename'' = 1"
  "headerIndex [''title'', ''filename''] ''title'' = 0"
  by (simp_all add: headerIndex_def TrimSpace_def TrimLeftSpace.simps TrimRightSpace.simps leadingSpace_def
      trailingSpace_def whiteSpace_def toLowerByte_def)

lemma Read_header:
  "Read (CsvReader (table [a, b] rows)) = (Inr [a, b], CsvReader (concat (map Encode rows)))"
  if "LF \<notin> set a" "LF \<notin> set b" "length (Encode [a, b]) \<le> maxScanTokenSize"
  unfolding table_def using that by (intro Read_Encode) auto

lemma apply_swap:
  assumes "\<forall>(f, t) \<in> set rs. LF \<notin> set f \<and> LF \<notin> set t \<and> length (Encode [f, t]) \<le> maxScanTokenSize"
  shows "applyTitlesFromCSV (\<lambda>p. Inr (table [''title'', ''filename''] (map (\<lambda>(f, t). [t, f]) rs))) u dir w =
         applyTitlesFromCSV (\<lambda>p. Inr (table [''filename'', ''title''] (map (\<lambda>(f, t). [f, t]) rs))) u dir w"
proof -
  have e1: "length (Encode [''filename'', ''title'']) \<le> maxScanTokenSize"
    by (simp add: Encode_eq encodeCSVField_cases maxScanTokenSize_def)
  have e2: "length (Encode [''title'', ''filename'']) \<le> maxScanTokenSize"
    by (simp add: Encode_eq encodeCSVField_cases maxScanTokenSize_def)
  have c1: "map (\<lambda>(f, t). Encode [f, t]) rs = map Encode (map (\<lambda>(f, t). [f, t]) rs)" by auto
  have c2: "map (\<lambda>(f, t). Encode [t, f]) rs = map Encode (map (\<lambda>(f, t). [t, f]) rs)" by auto
  have h1: "Read (CsvReader (table [''filename'', ''title''] (map (\<lambda>(f, t). [f, t]) rs))) =
    (Inr [''filename'', ''title''], CsvReader (concat (map (\<lambda>(f, t). Encode [f, t]) rs)))"
    unfolding c1 by (rule Read_header[OF _ _ e1]) simp_all
  have h2: "Read (CsvReader (table [''title'', ''filename''] (map (\<lambda>(f, t). [t, f]) rs))) =
    (Inr [''title'', ''filename''], CsvReader (concat (map (\<lambda>(f, t). Encode [t, f]) rs)))"
    unfolding c2 by (rule Read_header[OF _ _ e2]) simp_all
  show ?thesis
    using applyLoop_swap[OF assms, of u "Clean dir" w]
    by (simp add: applyTitlesFromCSV_def newCSVReader_def h1 h2 headerIndex_filename_title)
qed

lemma apply_missing_columns:
  assumes "Open (Join [Clean dir, csvFilename]) = Inr csv" "Read (newCSVReader csv) = (Inr header, reader')"
    "headerIndex header ''filename'' = -1 \<or> headerIndex header ''title'' = -1"
  shows "applyTitlesFromCSV Open u dir w = (Some (Errorf ''csv must include filename and title columns''), w)"
  using assms by (auto simp: applyTitlesFromCSV_def Let_def)

lemma Read_shorter:
  assumes "Read reader = (Inr rc, reader')"
  shows "remaining reader' < remaining reader"
proof (cases reader)
  case (CsvReader input)
  with assms obtain line where s: "Scan (CsvReader input) = (Inr line, reader')"
    by (auto simp: Read_def Let_def split: prod.splits sum.splits)
  then have ne: "input \<noteq> []" by (auto split: if_splits)
  with s have "reader' = CsvReader (drop (length (takeWhile (\<lambda>c. c \<noteq> LF) input) + 1) input)"
    by (auto simp: Let_def split: if_splits)
  with ne CsvReader show ?thesis by simp
next
  case (Overlong buffered)
  with assms show ?thesis by (auto simp: Read_def Let_def split: sum.splits)
next
  case Stopped
  with assms show ?thesis by (auto simp: Read_def)
qed

lemma applyLoop_log_grows:
  "\<exists>more. snd (snd (applyLoop (logged u) dir fi ti reader s)) = snd s @ more"
proof (induction "remaining reader" arbitrary: reader s rule: less_induct)
  case less
  obtain res reader' where rd: "Read reader = (res, reader')" by (cases "Read reader")
  show ?case
  proof (cases res)
    case (Inl err)
    with rd show ?thesis
      by (cases "err = EOF") (simp_all add: applyLoop_EOF applyLoop_error)
  next
    case (Inr rc)
    with rd have r: "Read reader = (Inr rc, reader')" by simp
    note ih = less[OF Read_shorter[OF r]]
    show ?thesis
    proof (cases "fi < length rc \<and> TrimSpace (rc ! fi) \<noteq> []")
      case False
      then have "applyLoop (logged u) dir fi ti reader s = applyLoop (logged u) dir fi ti reader' s"
        using applyLoop_short[OF r, of fi] applyLoop_blank[OF r, of fi] by (cases "fi < length rc") auto
      with ih[of s] show ?thesis by simp
    next
      case True
      let ?p = "if IsAbs (TrimSpace (rc ! fi)) then TrimSpace (rc ! fi) else Join [dir, TrimSpace (rc ! fi)]"
      let ?t = "if ti < length rc then rc ! ti else []"
      obtain e w' where u: "u ?p ?t (fst s) = (e, w')" by (cases "u ?p ?t (fst s)")
      show ?thesis
      proof (cases e)
        case None
        with u True have "applyLoop (logged u) dir fi ti reader s =
          applyLoop (logged u) dir fi ti reader' (w', snd s @ [(?p, ?t)])"
          by (simp add: applyLoop_call[OF r] logged_def)
        with ih[of "(w', snd s @ [(?p, ?t)])"] show ?thesis by auto
      next
        case (Some err)
        with u True have "applyLoop (logged u) dir fi ti reader s =
          (Some (Wrapf (''apply title for '' @ TrimSpace (rc ! fi)) err), (w', snd s @ [(?p, ?t)]))"
          by (simp add: applyLoop_call[OF r] logged_def)
        then show ?thesis by simp
      qed
    qed
  qed
qed

lemma applyLoop_next_call:
  assumes r: "Read reader = (Inr rc, reader')" and "fi < length rc" "TrimSpace (rc ! fi) \<noteq> []"
  shows "\<exists>more. snd (snd (applyLoop (logged u) dir fi ti reader (w, calls))) =
    calls @ (if IsAbs (TrimSpace (rc ! fi)) then TrimSpace (rc ! fi) else Join [dir, TrimSpace (rc ! fi)],
             if ti < length rc then rc ! ti else []) # more"
proof -
  let ?p = "if IsAbs (TrimSpace (rc ! fi)) then TrimSpace (rc ! fi) else Join [dir, TrimSpace (rc ! fi)]"
  let ?t = "if ti < length rc then rc ! ti else []"
  obtain e w' where u: "u ?p ?t w = (e, w')" by (cases "u ?p ?t w")
  show ?thesis
  proof (cases e)
    case None
    with u assms have "applyLoop (logged u) dir fi ti reader (w, calls) =
      applyLoop (logged u) dir fi ti reader' (w', calls @ [(?p, ?t)])"
      by (simp add: applyLoop_call[OF r] logged_def)
    with applyLoop_log_grows[of u dir fi ti reader' "(w', calls @ [(?p, ?t)])"] show ?thesis by auto
  next
    case (Some err)
    with u assms have "applyLoop (logged u) dir fi ti reader (w, calls) =
      (Some (Wrapf (''apply title for '' @ TrimSpace (rc ! fi)) err), (w', calls @ [(?p, ?t)]))"
      by (simp add: applyLoop_call[OF r] logged_def)
    then show ?thesis by simp
  qed
qed

lemma rows_end: "Read reader = (Inl err, reader') \<Longrightarrow> decodedRows reader = []"
  by (subst decodedRows.simps) simp

lemma rows_next: "Read reader = (Inr rc, reader') \<Longrightarrow> decodedRows reader = rc # decodedRows reader'"
  by (subst decodedRows.simps) simp

lemma applyLoop_calls:
  "(\<exists>k. snd (snd (applyLoop (logged u) dir fi ti reader s)) =
        snd s @ take k (map (callFor dir fi ti) (filter (\<lambda>rc. fi < length rc \<and> TrimSpace (rc ! fi) \<noteq> []) (decodedRows reader))))
   \<and> (fst (applyLoop (logged u) dir fi ti reader s) = None \<longrightarrow>
        snd (snd (applyLoop (logged u) dir fi ti reader s)) =
        snd s @ map (callFor dir fi ti) (filter (\<lambda>rc. fi < length rc \<and> TrimSpace (rc ! fi) \<noteq> []) (decodedRows reader)))"
proof (induction "remaining reader" arbitrary: reader s rule: less_induct)
  case less
  obtain res reader' where rd: "Read reader = (res, reader')" by (cases "Read reader")
  show ?case
  proof (cases res)
    case (Inl err)
    with rd have "decodedRows reader = []" by (simp add: rows_end)
    moreover from rd Inl have "snd (snd (applyLoop (logged u) dir fi ti reader s)) = snd s"
      by (cases "err = EOF") (simp_all add: applyLoop_EOF applyLoop_error)
    ultimately show ?thesis by simp
  next
    case (Inr rc)
    with rd have r: "Read reader = (Inr rc, reader')" by simp
    note ih = less[OF Read_shorter[OF r]]
    have rw: "decodedRows reader = rc # decodedRows reader'" using r by (rule rows_next)
    show ?thesis
    proof (cases "fi < length rc \<and> TrimSpace (rc ! fi) \<noteq> []")
      case False
      then have eq: "applyLoop (logged u) dir fi ti reader s = applyLoop (logged u) dir fi ti reader' s"
        using applyLoop_short[OF r, of fi] applyLoop_blank[OF r, of fi]
        by (cases "fi < length rc") auto
      have flt: "filter (\<lambda>rc. fi < length rc \<and> TrimSpace (rc ! fi) \<noteq> []) (decodedRows reader) =
        filter (\<lambda>rc. fi < length rc \<and> TrimSpace (rc ! fi) \<noteq> []) (decodedRows reader')"
        using False by (simp add: rw)
      from ih[of s] show ?thesis unfolding eq flt .
    next
      case True
      define c where "c = callFor dir fi ti rc"
      define all' where "all' = map (callFor dir fi ti) (filter (\<lambda>rc. fi < length rc \<and> TrimSpace (rc ! fi) \<noteq> []) (decodedRows reader'))"
      have all: "map (callFor dir fi ti) (filter (\<lambda>rc. fi < length rc \<and> TrimSpace (rc ! fi) \<noteq> []) (decodedRows reader)) = c # all'"
        using True rw by (simp add: c_def all'_def)
      obtain e w' where u: "u (fst c) (snd c) (fst s) = (e, w')" by (cases "u (fst c) (snd c) (fst s)")
      have step: "applyLoop (logged u) dir fi ti reader s =
        (case logged u (fst c) (snd c) s of
           (Some err, s') \<Rightarrow> (Some (Wrapf (''apply title for '' @ TrimSpace (rc ! fi)) err), s')
         | (None, s') \<Rightarrow> applyLoop (logged u) dir fi ti reader' s')"
        using True by (intro applyLoop_call_as[OF r]) (simp_all add: c_def callFor_def)
      have lg: "logged u (fst c) (snd c) s = (e, (w', snd s @ [c]))"
        using u by (simp add: logged_def)
      show ?thesis
      proof (cases e)
        case None
        with step lg have eq: "applyLoop (logged u) dir fi ti reader s =
          applyLoop (logged u) dir fi ti reader' (w', snd s @ [c])" by simp
        from ih[of "(w', snd s @ [c])"] have
          ex: "\<exists>k. snd (snd (applyLoop (logged u) dir fi ti reader' (w', snd s @ [c]))) = (snd s @ [c]) @ take k all'"
          and f: "fst (applyLoop (logged u) dir fi ti reader' (w', snd s @ [c])) = None \<longrightarrow>
            snd (snd (applyLoop (logged u) dir fi ti reader' (w', snd s @ [c]))) = (snd s @ [c]) @ all'"
          unfolding all'_def by simp_all
        from ex obtain k where
          k: "snd (snd (applyLoop (logged u) dir fi ti reader' (w', snd s @ [c]))) = (snd s @ [c]) @ take k all'"
          by blast
        from k have "snd (snd (applyLoop (logged u) dir fi ti reader s)) = snd s @ take (Suc k) (c # all')"
          by (simp add: eq)
        moreover from f have "fst (applyLoop (logged u) dir fi ti reader s) = None \<longrightarrow>
          snd (snd (applyLoop (logged u) dir fi ti reader s)) = snd s @ (c # all')"
          by (simp add: eq)
        ultimately show ?thesis unfolding all by blast
      next
        case (Some err)
        with step lg have eq: "applyLoop (logged u) dir fi ti reader s =
          (Some (Wrapf (''apply title for '' @ TrimSpace (rc ! fi)) err), (w', snd s @ [c]))" by simp
        then have "snd (snd (applyLoop (logged u) dir fi ti reader s)) = snd s @ take (Suc 0) (c # all')"
          by simp
        moreover have "fst (applyLoop (logged u) dir fi ti reader s) \<noteq> None" by (simp add: eq)
        ultimately show ?thesis unfolding all by blast
      qed
    qed
  qed
qed

lemma extLoop_slash:
  "SLASH \<in> set (takeWhile (\<lambda>c. c \<noteq> DOT) r) \<Longrightarrow> extLoop r passed = []"
  by (induction r arbitrary: passed) (auto split: if_splits)

lemma extLoop_no_slash:
  "SLASH \<notin> set (takeWhile (\<lambda>c. c \<noteq> DOT) r) \<Longrightarrow>
   extLoop r passed = (if DOT \<in> set r then DOT # rev (takeWhile (\<lambda>c. c \<noteq> DOT) r) @ passed else [])"
  by (induction r arbitrary: passed) (auto split: if_splits)

lemma lower_letter:
  assumes "d \<in> set ''.jpeg''"
  shows "(toLowerByte c = d) = sameLetter c d"
proof -
  define U where "U = ''ABCDEFGHIJKLMNOPQRSTUVWXYZ''"
  define L where "L = ''abcdefghijklmnopqrstuvwxyz''"
  have dist: "distinct (map fst (zip U L))" by (simp add: U_def L_def)
  have dU: "d \<notin> set U" using assms by (auto simp: U_def)
  have m: "((c, l) \<in> set (zip U L)) = (map_of (zip U L) c = Some l)" for l
    using dist by simp
  have nd: "(d, c) \<notin> set (zip U L)" using dU by (auto dest: set_zip_leftD)
  show ?thesis
  proof (cases "map_of (zip U L) c")
    case None
    then show ?thesis using nd unfolding toLowerByte_def sameLetter_def U_def[symmetric] L_def[symmetric] m
      by simp
  next
    case (Some l)
    then have "(c, l) \<in> set (zip U L)" by (rule map_of_SomeD)
    then have "c \<in> set U" by (rule set_zip_leftD)
    with dU have "c \<noteq> d" by auto
    with Some nd show ?thesis unfolding toLowerByte_def sameLetter_def U_def[symmetric] L_def[symmetric] m
      by simp
  qed
qed

lemma lower_text:
  "set t \<subseteq> set ''.jpeg'' \<Longrightarrow> (ToLower x = t) = list_all2 sameLetter x t"
proof (induction x arbitrary: t)
  case Nil
  then show ?case by (auto simp: ToLower_def)
next
  case (Cons c x)
  show ?case
  proof (cases t)
    case Nil
    then show ?thesis by (simp add: ToLower_def)
  next
    case (Cons d t')
    with Cons.prems have d: "d \<in> set ''.jpeg''" and t': "set t' \<subseteq> set ''.jpeg''" by auto
    from Cons.IH[OF t'] lower_letter[OF d, of c] Cons show ?thesis by (simp add: ToLower_def)
  qed
qed

lemma lower_no_slash:
  assumes "ToLower x = t" "set t \<subseteq> set ''.jpeg''"
  shows "SLASH \<notin> set x"
proof
  assume "SLASH \<in> set x"
  then have "toLowerByte SLASH \<in> set (ToLower x)" unfolding ToLower_def by (metis imageI set_map)
  moreover have "toLowerByte SLASH = SLASH" by (simp add: toLowerByte_def)
  ultimately show False using assms by auto
qed

lemma isJPEG_extension: "isJPEG name = jpegExtension name"
proof (cases "SLASH \<in> set (takeWhile (\<lambda>c. c \<noteq> DOT) (rev name))")
  case True
  then have e: "Ext name = []" by (simp add: Ext_def extLoop_slash)
  have "\<not> list_all2 sameLetter (extension name) t" if t: "set t \<subseteq> set ''.jpeg''" "t \<noteq> []" for t
  proof
    assume a: "list_all2 sameLetter (extension name) t"
    then have "ToLower (extension name) = t" using t(1) by (simp add: lower_text)
    then have "SLASH \<notin> set (extension name)" using t(1) by (rule lower_no_slash)
    moreover from a t(2) have "extension name \<noteq> []" by auto
    ultimately show False using True by (auto simp: extension_def split: if_splits)
  qed
  from this[of "''.jpg''"] this[of "''.jpeg''"] e show ?thesis
    by (simp add: isJPEG_def jpegExtension_def ToLower_def)
next
  case False
  then have "Ext name = extension name" by (simp add: Ext_def extLoop_no_slash extension_def)
  then show ?thesis by (simp add: isJPEG_def jpegExtension_def lower_text Let_def)
qed

lemma scanLoop_ok:
  "scanLoop env absDir entries w = (None, w') \<Longrightarrow>
   accepted w' = accepted w @ concat (map (\<lambda>entry. Encode [Name entry, caption env absDir entry]) (filter qualifying entries))
   \<and> (\<forall>entry \<in> set (filter qualifying entries).
        readTitle (NewJpegMediaParser env) (Join [absDir, Name entry]) = Inr (caption env absDir entry))"
proof (induction entries arbitrary: w)
  case Nil
  then show ?case by simp
next
  case (Cons entry entries)
  show ?case
  proof (cases "qualifying entry")
    case False
    then have "scanLoop env absDir (entry # entries) w = scanLoop env absDir entries w"
      by (auto simp: qualifying_def isJPEG_extension Let_def)
    with Cons.prems Cons.IH[of w] False show ?thesis by simp
  next
    case True
    then have q: "\<not> (IsDir entry \<or> \<not> IsRegular entry)" "\<not> (EqualFold (Name entry) csvFilename \<or> \<not> isJPEG (Name entry))"
      by (auto simp: qualifying_def isJPEG_extension)
    from Cons.prems q obtain title w1 where
      t: "readTitle (NewJpegMediaParser env) (Join [absDir, Name entry]) = Inr title" and
      wr: "Write (Dev env) w [Name entry, title] = (None, w1)" and
      rest: "scanLoop env absDir entries w1 = (None, w')"
      by (auto simp: Let_def split: sum.splits prod.splits option.splits)
    from t have c: "caption env absDir entry = title" by (simp add: caption_def)
    from Write_ok[OF wr] have "accepted w1 = accepted w @ Encode [Name entry, title]" by (simp add: Encode_eq)
    with Cons.IH[OF rest] True t c show ?thesis by simp
  qed
qed

lemma scanLoop_complete:
  "Dev env = reliable \<Longrightarrow>
   \<forall>entry \<in> set (filter qualifying entries). \<exists>title. readTitle (NewJpegMediaParser env) (Join [absDir, Name entry]) = Inr title \<Longrightarrow>
   fst (scanLoop env absDir entries w) = None"
proof (induction entries arbitrary: w)
  case Nil
  then show ?case by simp
next
  case (Cons entry entries)
  show ?case
  proof (cases "qualifying entry")
    case False
    then have "scanLoop env absDir (entry # entries) w = scanLoop env absDir entries w"
      by (auto simp: qualifying_def isJPEG_extension Let_def)
    with Cons show ?thesis by simp
  next
    case True
    then have q: "\<not> (IsDir entry \<or> \<not> IsRegular entry)" "\<not> (EqualFold (Name entry) csvFilename \<or> \<not> isJPEG (Name entry))"
      by (auto simp: qualifying_def isJPEG_extension)
    from Cons.prems(2) True obtain title where
      t: "readTitle (NewJpegMediaParser env) (Join [absDir, Name entry]) = Inr title" by auto
    obtain e w1 where wr: "Write (Dev env) w [Name entry, title] = (e, w1)" by (cases "Write (Dev env) w [Name entry, title]")
    with Write_reliable[of w "[Name entry, title]"] Cons.prems(1) have "e = None" by simp
    with q t wr have "scanLoop env absDir (entry # entries) w = scanLoop env absDir entries w1"
      by (simp add: Let_def)
    with Cons.IH[of w1] Cons.prems show ?thesis by simp
  qed
qed

lemma count_escaped: "count_list (ReplaceAll p [DQ] [DQ, DQ]) DQ = 2 * count_list p DQ"
  by (induction p) (simp_all add: ReplaceAll_Nil ReplaceAll_Cons1)

lemma set_escaped: "set (ReplaceAll p [DQ] [DQ, DQ]) \<subseteq> insert DQ (set p)"
  by (auto simp: ReplaceAll_DQ split: if_splits)

lemma escaped_append:
  "ReplaceAll (p @ q) [DQ] [DQ, DQ] = ReplaceAll p [DQ] [DQ, DQ] @ ReplaceAll q [DQ] [DQ, DQ]"
  by (simp add: ReplaceAll_DQ)

lemma even_count_encoded: "even (count_list (encodeCSVField g) DQ)"
proof (cases "ContainsAny g [DQ, COMMA, LF, CR]")
  case True
  then show ?thesis by (simp add: encodeCSVField_def count_escaped)
next
  case False
  then have "DQ \<notin> set g" by (auto simp: ContainsAny_iff)
  then have "count_list g DQ = 0" by (simp add: count_list_0_iff)
  with False show ?thesis by (simp add: encodeCSVField_def)
qed

lemma encoded_first_line:
  assumes "LF \<in> set f"
  shows "\<exists>l tail. encodeCSVField f = l @ LF # tail \<and> LF \<notin> set l \<and> odd (count_list l DQ)"
proof -
  from assms obtain p q where f: "f = p @ LF # q" and p: "LF \<notin> set p"
    by (auto dest: split_list_first)
  let ?l = "DQ # ReplaceAll p [DQ] [DQ, DQ]"
  let ?tail = "ReplaceAll q [DQ] [DQ, DQ] @ [DQ]"
  have "ContainsAny f [DQ, COMMA, LF, CR]" using assms by (auto simp: ContainsAny_iff)
  then have "encodeCSVField f = ?l @ LF # ?tail"
    by (simp add: encodeCSVField_def f escaped_append ReplaceAll_Cons1)
  moreover have "LF \<notin> set ?l" using p set_escaped[of p] by auto
  moreover have "odd (count_list ?l DQ)" by (simp add: count_escaped)
  ultimately show ?thesis by blast
qed

lemma unreadable_row:
  assumes "\<not> (LF \<notin> set a \<and> LF \<notin> set b \<and> length (Encode [a, b]) \<le> maxScanTokenSize)"
  shows "\<exists>e. e \<noteq> EOF \<and> fst (Read (CsvReader (Encode [a, b] @ rest))) = Inl e"
proof -
  have enc: "Encode [a, b] @ rest = encodeCSVField a @ COMMA # encodeCSVField b @ LF # rest"
    by (simp add: Encode_eq)
  consider (a) "LF \<in> set a" | (b) "LF \<notin> set a" "LF \<in> set b"
    | (c) "LF \<notin> set a" "LF \<notin> set b" "length (Encode [a, b]) > maxScanTokenSize"
    using assms by fastforce
  then show ?thesis
  proof cases
    case a
    from encoded_first_line[OF a] obtain l tail where
      l: "encodeCSVField a = l @ LF # tail" "LF \<notin> set l" "odd (count_list l DQ)" by blast
    have "Encode [a, b] @ rest = l @ LF # (tail @ COMMA # encodeCSVField b @ LF # rest)"
      by (simp add: enc l(1))
    with first_line_unbalanced[OF l(2,3)] show ?thesis by simp
  next
    case b
    from encoded_first_line[OF b(2)] obtain l tail where
      l: "encodeCSVField b = l @ LF # tail" "LF \<notin> set l" "odd (count_list l DQ)" by blast
    let ?l = "encodeCSVField a @ COMMA # l"
    have 1: "LF \<notin> set ?l" using b(1) l(2) set_encodeCSVField[of a] by auto
    have 2: "odd (count_list ?l DQ)" using l(3) even_count_encoded[of a] by simp
    have "Encode [a, b] @ rest = ?l @ LF # (tail @ LF # rest)" by (simp add: enc l(1))
    with first_line_unbalanced[OF 1 2] show ?thesis by simp
  next
    case c
    let ?l = "joinFields (map encodeCSVField [a, b])"
    have 1: "LF \<notin> set ?l" using c(1,2) by (intro joinFields_no_LF) simp
    have 2: "length ?l \<ge> maxScanTokenSize" using c(3) by (simp add: Encode_eq)
    have "Read (CsvReader (?l @ LF # rest)) = (Inl ErrTooLong, Overlong (take maxScanTokenSize ?l))"
      using 1 2 by (rule Read_too_long)
    then show ?thesis by (simp add: Encode_eq)
  qed
qed

lemma applyLoop_swap_any:
  "snd (applyLoop u dir 0 (Suc 0) (CsvReader (concat (map (\<lambda>(f, t). Encode [f, t]) rs))) w) =
   snd (applyLoop u dir (Suc 0) 0 (CsvReader (concat (map (\<lambda>(f, t). Encode [t, f]) rs))) w)
   \<and> (fst (applyLoop u dir 0 (Suc 0) (CsvReader (concat (map (\<lambda>(f, t). Encode [f, t]) rs))) w) = None) =
     (fst (applyLoop u dir (Suc 0) 0 (CsvReader (concat (map (\<lambda>(f, t). Encode [t, f]) rs))) w) = None)"
proof (induction rs arbitrary: w)
  case Nil
  have "Read (CsvReader []) = (Inl EOF, CsvReader [])" by (simp add: Read_def)
  then show ?case by (simp add: applyLoop_EOF)
next
  case (Cons r rs)
  obtain f t where r: "r = (f, t)" by (cases r)
  let ?c1 = "concat (map (\<lambda>(f, t). Encode [f, t]) rs)"
  let ?c2 = "concat (map (\<lambda>(f, t). Encode [t, f]) rs)"
  show ?case
  proof (cases "LF \<notin> set f \<and> LF \<notin> set t \<and> length (Encode [f, t]) \<le> maxScanTokenSize")
    case True
    then have h: "LF \<notin> set f" "LF \<notin> set t" "length (Encode [f, t]) \<le> maxScanTokenSize" by auto
    have r1: "Read (CsvReader (Encode [f, t] @ ?c1)) = (Inr [f, t], CsvReader ?c1)"
      using h by (intro Read_Encode) auto
    have r2: "Read (CsvReader (Encode [t, f] @ ?c2)) = (Inr [t, f], CsvReader ?c2)"
      using h length_Encode_swap[of f t] by (intro Read_Encode) auto
    show ?thesis
    proof (cases "TrimSpace f = []")
      case True
      then show ?thesis using r Cons.IH[of w]
        by (simp add: applyLoop_blank[OF r1] applyLoop_blank[OF r2])
    next
      case False
      define p where "p = (if IsAbs (TrimSpace f) then TrimSpace f else Join [dir, TrimSpace f])"
      have s1: "applyLoop u dir 0 (Suc 0) (CsvReader (Encode [f, t] @ ?c1)) w =
        (case u p t w of
           (Some err, w') \<Rightarrow> (Some (Wrapf (''apply title for '' @ TrimSpace f) err), w')
         | (None, w') \<Rightarrow> applyLoop u dir 0 (Suc 0) (CsvReader ?c1) w')"
        using False by (intro applyLoop_call_as[OF r1]) (simp_all add: p_def)
      have s2: "applyLoop u dir (Suc 0) 0 (CsvReader (Encode [t, f] @ ?c2)) w =
        (case u p t w of
           (Some err, w') \<Rightarrow> (Some (Wrapf (''apply title for '' @ TrimSpace f) err), w')
         | (None, w') \<Rightarrow> applyLoop u dir (Suc 0) 0 (CsvReader ?c2) w')"
        using False by (intro applyLoop_call_as[OF r2]) (simp_all add: p_def)
      obtain e w' where u: "u p t w = (e, w')" by (cases "u p t w")
      show ?thesis
      proof (cases e)
        case None
        with u r Cons.IH[of w'] show ?thesis by (simp add: s1 s2)
      next
        case (Some err)
        with u r show ?thesis by (simp add: s1 s2)
      qed
    qed
  next
    case False
    from unreadable_row[OF False, of ?c1] obtain e1 rd1 where
      1: "e1 \<noteq> EOF" "Read (CsvReader (Encode [f, t] @ ?c1)) = (Inl e1, rd1)"
      by (cases "Read (CsvReader (Encode [f, t] @ ?c1))") auto
    from False have "\<not> (LF \<notin> set t \<and> LF \<notin> set f \<and> length (Encode [t, f]) \<le> maxScanTokenSize)"
      using length_Encode_swap[of f t] by auto
    from unreadable_row[OF this, of ?c2] obtain e2 rd2 where
      2: "e2 \<noteq> EOF" "Read (CsvReader (Encode [t, f] @ ?c2)) = (Inl e2, rd2)"
      by (cases "Read (CsvReader (Encode [t, f] @ ?c2))") auto
    show ?thesis using r
      by (simp add: applyLoop_error[OF 1(2,1)] applyLoop_error[OF 2(2,1)])
  qed
qed

lemma apply_swap_any:
  "snd (applyTitlesFromCSV (\<lambda>p. Inr (table [''title'', ''filename''] (map (\<lambda>(f, t). [t, f]) rs))) u dir w) =
   snd (applyTitlesFromCSV (\<lambda>p. Inr (table [''filename'', ''title''] (map (\<lambda>(f, t). [f, t]) rs))) u dir w)
   \<and> (fst (applyTitlesFromCSV (\<lambda>p. Inr (table [''title'', ''filename''] (map (\<lambda>(f, t). [t, f]) rs))) u dir w) = None) =
     (fst (applyTitlesFromCSV (\<lambda>p. Inr (table [''filename'', ''title''] (map (\<lambda>(f, t). [f, t]) rs))) u dir w) = None)"
proof -
  have e1: "length (Encode [''filename'', ''title'']) \<le> maxScanTokenSize"
    by (simp add: Encode_eq encodeCSVField_cases maxScanTokenSize_def)
  have e2: "length (Encode [''title'', ''filename'']) \<le> maxScanTokenSize"
    by (simp add: Encode_eq encodeCSVField_cases maxScanTokenSize_def)
  have c1: "map (\<lambda>(f, t). Encode [f, t]) rs = map Encode (map (\<lambda>(f, t). [f, t]) rs)" by auto
  have c2: "map (\<lambda>(f, t). Encode [t, f]) rs = map Encode (map (\<lambda>(f, t). [t, f]) rs)" by auto
  have h1: "Read (CsvReader (table [''filename'', ''title''] (map (\<lambda>(f, t). [f, t]) rs))) =
    (Inr [''filename'', ''title''], CsvReader (concat (map (\<lambda>(f, t). Encode [f, t]) rs)))"
    unfolding c1 by (rule Read_header[OF _ _ e1]) simp_all
  have h2: "Read (CsvReader (table [''title'', ''filename''] (map (\<lambda>(f, t). [t, f]) rs))) =
    (Inr [''title'', ''filename''], CsvReader (concat (map (\<lambda>(f, t). Encode [t, f]) rs)))"
    unfolding c2 by (rule Read_header[OF _ _ e2]) simp_all
  show ?thesis
    using applyLoop_swap_any[of u "Clean dir" rs w]
    by (simp add: applyTitlesFromCSV_def newCSVReader_def h1 h2 headerIndex_filename_title)
qed

section \<open>The claims about the codec\<close>

text \<open>
  C5. \<open>encodeCSVField\<close> writes a field between double quotes, its own double quotes
  doubled, exactly when the field holds a double quote, a comma, a line feed or a carriage
  return, and writes it unchanged otherwise. \<open>Write\<close>, when it reports no error, has
  appended the encoded fields joined by commas and one line feed to the bytes the writer
  has accepted (those in the file and, after them, those in its buffer); on a device that
  never fails it reports no error; and the text before that line feed never ends in a
  line feed.
\<close>

theorem encode_quoting:
  "encodeCSVField field =
     (if DQ \<in> set field \<or> COMMA \<in> set field \<or> LF \<in> set field \<or> CR \<in> set field
      then quoted field else field)
   \<and> wrapped (encodeCSVField field) =
       (DQ \<in> set field \<or> COMMA \<in> set field \<or> LF \<in> set field \<or> CR \<in> set field)
   \<and> (Write dev w record = (None, w') \<longrightarrow>
        accepted w' = accepted w @ joinFields (map encodeCSVField record) @ [LF])
   \<and> fst (Write reliable w record) = None
   \<and> (joinFields (map encodeCSVField record) = [] \<or>
        last (joinFields (map encodeCSVField record)) \<noteq> LF)"
  using encodeCSVField_cases[of field] wrapped_encodeCSVField[of field] Write_ok[of dev w "record" w']
    Write_reliable[of w "record"] joinFields_last[of "record"]
  by blast

theorem encode_quoting_witness:
  "encodeCSVField ''a,b'' = [DQ] @ ''a,b'' @ [DQ]
   \<and> fst (Write reliable newCSVWriter [''a,b'', ''c'']) = None
   \<and> accepted (snd (Write reliable newCSVWriter [''a,b'', ''c''])) = [DQ] @ ''a,b'' @ [DQ] @ '',c'' @ [LF]"
  using encode_quoting[of "''a,b''" reliable newCSVWriter "[''a,b'', ''c'']"
      "snd (Write reliable newCSVWriter [''a,b'', ''c''])"]
  by (simp add: encodeCSVField_cases quoted_def accepted_new prod_eq_iff)

text \<open>
  C6. \<open>parseCSVLine\<close> fails with the error \<open>unterminated quoted field\<close> exactly when the
  scan of the line ends with \<open>inQuotes\<close> set, which is exactly when the line holds an odd
  number of double quotes; the line \<open>a,"b\<close> is such a line. \<open>Read\<close> parses the bytes up
  to the first line feed and nothing after it, so a quote left open on one physical line
  is an error whatever the following lines hold.
\<close>

theorem unterminated_quote_fails:
  "(parseCSVLine line = Inl (Errorf ''unterminated quoted field'')) = snd (snd (parseLoop line [] [] False))
   \<and> snd (snd (parseLoop line [] [] False)) = odd (count_list line DQ)
   \<and> parseCSVLine (''a,'' @ [DQ] @ ''b'') = Inl (Errorf ''unterminated quoted field'')
   \<and> (LF \<notin> set l \<and> length l < maxScanTokenSize \<longrightarrow>
        Read (CsvReader (l @ LF # rest)) = (parseCSVLine (TrimSuffix (dropCR l) [CR]), CsvReader rest))
   \<and> (LF \<notin> set l \<and> odd (count_list l DQ) \<longrightarrow>
        (\<exists>e. e \<noteq> EOF \<and> fst (Read (CsvReader (l @ LF # rest))) = Inl e))"
proof -
  have "parseCSVLine (''a,'' @ [DQ] @ ''b'') = Inl (Errorf ''unterminated quoted field'')"
    by (simp add: parseCSVLine_def)
  then show ?thesis
    using parseCSVLine_unterminated[of line] parseLoop_flag[of line "[]" "[]" False]
      Read_line[of l rest] first_line_unbalanced[of l rest]
    by simp
qed

theorem unterminated_quote_fails_witness:
  "Read (CsvReader ([DQ] @ ''a'' @ [LF] @ ''b'' @ [DQ, LF])) =
     (Inl (Errorf ''unterminated quoted field''), CsvReader (''b'' @ [DQ, LF]))"
  using unterminated_quote_fails[of "[]" "[DQ] @ ''a''" "''b'' @ [DQ, LF]"]
  by (simp add: maxScanTokenSize_def dropCR_def TrimSuffix_def HasSuffix_def parseCSVLine_def)

text \<open>
  C9. A record that \<open>parseCSVLine\<close> or \<open>Read\<close> returns has at least one field, and the
  empty line decodes to the record of one empty field.
\<close>

theorem decode_never_empty:
  "(parseCSVLine line = Inr record \<longrightarrow> length record \<ge> 1)
   \<and> (Read r = (Inr record, r') \<longrightarrow> length record \<ge> 1)
   \<and> parseCSVLine [] = Inr [[]]
   \<and> Read (CsvReader [LF]) = (Inr [[]], CsvReader [])"
proof -
  have a: "length rc \<ge> 1" if "parseCSVLine ln = Inr rc" for ln rc
    using that by (auto simp: parseCSVLine_def split: prod.splits if_splits)
  have b: "length record \<ge> 1" if "Read r = (Inr record, r')"
    using that a by (auto simp: Read_def Let_def split: prod.splits sum.splits)
  have c: "parseCSVLine [] = Inr [[]]" by (simp add: parseCSVLine_def)
  have d: "Read (CsvReader [LF]) = (Inr [[]], CsvReader [])"
    using Read_line[of "[]" "[]"] c by (simp add: maxScanTokenSize_def dropCR_def TrimSuffix_def HasSuffix_def)
  from a b c d show ?thesis by blast
qed

theorem decode_never_empty_witness:
  "parseCSVLine '',x'' = Inr [[], ''x''] \<and> length [[], ''x''] \<ge> (1::nat)"
  using decode_never_empty[of "'',x''" "[[], ''x'']"]
  by (simp add: parseCSVLine_def)

text \<open>
  C1, as amended. For every text \<open>t\<close> without a line feed whose encoding is shorter than
  \<open>maxScanTokenSize\<close>, reading back the written record \<open>[t]\<close> gives \<open>[t]\<close>: commas, double
  quotes and carriage returns survive the round trip.
\<close>

theorem round_trip_single_line:
  "LF \<notin> set t \<Longrightarrow> length (encodeCSVField t) < maxScanTokenSize \<Longrightarrow> Decode (Encode [t]) = Inr [t]"
  using Read_Encode[of "[t]" "[]"] by (simp add: Decode_def newCSVReader_def Encode_eq)

theorem round_trip_single_line_witness:
  "Decode (Encode [''a,'' @ [DQ] @ ''b'' @ [CR]]) = Inr [''a,'' @ [DQ] @ ''b'' @ [CR]]"
  using round_trip_single_line[of "''a,'' @ [DQ] @ ''b'' @ [CR]"]
  by (simp add: encodeCSVField_cases quoted_def maxScanTokenSize_def)

text \<open>
  C1 as stated fails: a text with a line feed is written as a quoted field over two
  physical lines, and \<open>Read\<close> rejects the first of them; a text of \<open>maxScanTokenSize\<close>
  bytes is written as a line the scanner refuses.
\<close>

theorem round_trip_counterexample:
  "Decode (Encode [''a'' @ [LF] @ ''b'']) = Inl (Errorf ''unterminated quoted field'')
   \<and> Decode (Encode [replicate 1048576 (CHR ''a'')]) = Inl ErrTooLong"
proof -
  have a: "Decode (Encode [''a'' @ [LF] @ ''b'']) = Inl (Errorf ''unterminated quoted field'')"
    by (simp add: Decode_def Encode_eq encodeCSVField_cases quoted_def newCSVReader_def Read_def
      maxScanTokenSize_def dropCR_def HasSuffix_def TrimSuffix_def parseCSVLine_def)
  let ?t = "replicate 1048576 (CHR ''a'')"
  have "encodeCSVField ?t = ?t" by (simp add: encodeCSVField_cases)
  then have "Encode [?t] = ?t @ LF # []" by (simp add: Encode_eq)
  moreover have "fst (Read (CsvReader (?t @ LF # []))) = Inl ErrTooLong"
    by (subst Read_too_long) (simp_all add: maxScanTokenSize_def)
  ultimately have "Decode (Encode [?t]) = Inl ErrTooLong" by (simp add: Decode_def newCSVReader_def)
  with a show ?thesis by simp
qed

section \<open>The claims about Apply\<close>

text \<open>
  In the theorems below \<open>upsertTitle\<close> is any write-caption operation and \<open>w\<close> any state
  of the files. With \<open>logged upsertTitle\<close> the state carries the list of the write-caption
  calls made so far, so the theorems about \<open>logged\<close> speak of the calls a run makes.
\<close>

text \<open>
  C2, as amended. A decoded row that has no field at the filename column index is skipped:
  the loop goes on with the rows after it, in the same state, so no write-caption call is
  made for it and it is no error. A row that has a filename field, not empty after
  trimming, but no field at the title column index is not skipped: the next write-caption
  call is the one for this row, with the empty title. Over a whole run the calls made are
  the calls for the rows with a filename field that is not empty after trimming, in the
  order of the rows: all of them when the run returns no error, the first of them when
  it stops early.
\<close>

theorem short_row:
  "(Read reader = (Inr rc, reader') \<and> length rc \<le> filenameIdx \<longrightarrow>
      applyLoop upsertTitle dir filenameIdx titleIdx reader w =
      applyLoop upsertTitle dir filenameIdx titleIdx reader' w)
   \<and> (Read reader = (Inr rc, reader') \<and> filenameIdx < length rc \<and> length rc \<le> titleIdx \<and>
       TrimSpace (rc ! filenameIdx) \<noteq> [] \<longrightarrow>
      (\<exists>more. snd (snd (applyLoop (logged upsertTitle) dir filenameIdx titleIdx reader (w, calls))) =
         calls @ (if IsAbs (TrimSpace (rc ! filenameIdx)) then TrimSpace (rc ! filenameIdx)
                  else Join [dir, TrimSpace (rc ! filenameIdx)], []) # more))
   \<and> (\<exists>k. snd (snd (applyLoop (logged upsertTitle) dir filenameIdx titleIdx reader (w, calls))) =
         calls @ take k (map (callFor dir filenameIdx titleIdx)
           (filter (\<lambda>rc. filenameIdx < length rc \<and> TrimSpace (rc ! filenameIdx) \<noteq> [])
              (decodedRows reader))))
   \<and> (fst (applyLoop (logged upsertTitle) dir filenameIdx titleIdx reader (w, calls)) = None \<longrightarrow>
        snd (snd (applyLoop (logged upsertTitle) dir filenameIdx titleIdx reader (w, calls))) =
        calls @ map (callFor dir filenameIdx titleIdx)
          (filter (\<lambda>rc. filenameIdx < length rc \<and> TrimSpace (rc ! filenameIdx) \<noteq> [])
             (decodedRows reader)))"
  using applyLoop_short[of reader rc reader' filenameIdx upsertTitle dir titleIdx w]
    applyLoop_next_call[of reader rc reader' filenameIdx upsertTitle dir titleIdx w calls]
    applyLoop_calls[of upsertTitle dir filenameIdx titleIdx reader "(w, calls)"]
  by auto

theorem short_row_witness:
  "applyLoop (logged succeed) ''d'' 1 2 (CsvReader (''a'' @ [LF] @ ''x,b.jpg,t'' @ [LF])) ((), []) =
     (None, ((), [(''d/b.jpg'', ''t'')]))
   \<and> (\<exists>more. snd (snd (applyLoop (logged succeed) ''d'' 0 2 (CsvReader (''a.jpg'' @ [LF])) ((), []))) =
        (''d/a.jpg'', []) # more)"
proof -
  have a: "Read (CsvReader (''a'' @ [LF] @ ''x,b.jpg,t'' @ [LF])) = (Inr [''a''], CsvReader (''x,b.jpg,t'' @ [LF]))"
    by (simp add: eval_simps)
  have b: "Read (CsvReader (''a.jpg'' @ [LF])) = (Inr [''a.jpg''], CsvReader [])"
    by (simp add: eval_simps)
  have c: "TrimSpace ''a.jpg'' = ''a.jpg''" "Join [''d'', ''a.jpg''] = ''d/a.jpg''" "\<not> IsAbs ''a.jpg''"
    by (simp_all add: eval_simps)
  have d: "applyLoop (logged succeed) ''d'' 1 2 (CsvReader (''x,b.jpg,t'' @ [LF])) ((), []) =
     (None, ((), [(''d/b.jpg'', ''t'')]))"
    by (simp add: eval_simps)
  from a d short_row[of "CsvReader (''a'' @ [LF] @ ''x,b.jpg,t'' @ [LF])" "[''a'']" "CsvReader (''x,b.jpg,t'' @ [LF])"
      1 "logged succeed" "''d''" 2 "((), [])" "[]"]
  have 1: "applyLoop (logged succeed) ''d'' 1 2 (CsvReader (''a'' @ [LF] @ ''x,b.jpg,t'' @ [LF])) ((), []) =
     (None, ((), [(''d/b.jpg'', ''t'')]))"
    by simp
  from b c short_row[of "CsvReader (''a.jpg'' @ [LF])" "[''a.jpg'']" "CsvReader []" 0 succeed "''d''" 2 "()" "[]"]
  have 2: "\<exists>more. snd (snd (applyLoop (logged succeed) ''d'' 0 2 (CsvReader (''a.jpg'' @ [LF])) ((), []))) =
        (''d/a.jpg'', []) # more"
    by simp
  from 1 2 show ?thesis by simp
qed

text \<open>
  C2 as stated fails: with the header \<open>filename,x,title\<close> the title column index is 2, the
  row \<open>a.jpg\<close> has one field, and Apply calls write-caption for \<open>d/a.jpg\<close> with the empty
  title.
\<close>

theorem short_row_counterexample:
  "Read (CsvReader (''filename,x,title'' @ [LF] @ ''a.jpg'' @ [LF])) =
     (Inr [''filename'', ''x'', ''title''], CsvReader (''a.jpg'' @ [LF]))
   \<and> headerIndex [''filename'', ''x'', ''title''] ''filename'' = 0
   \<and> headerIndex [''filename'', ''x'', ''title''] ''title'' = 2
   \<and> Read (CsvReader (''a.jpg'' @ [LF])) = (Inr [''a.jpg''], CsvReader [])
   \<and> length [''a.jpg''] < (2::nat)
   \<and> applyTitlesFromCSV (\<lambda>p. Inr (''filename,x,title'' @ [LF] @ ''a.jpg'' @ [LF])) (logged succeed) ''d'' ((), [])
       = (None, ((), [(''d/a.jpg'', [])]))"
  by (simp add: eval_simps)

text \<open>
  C7. \<open>headerIndex\<close> finds a column by its name, trimmed and compared without regard to
  case, wherever the column stands: it returns the first index whose header field matches,
  and -1 exactly when none does. For every list of rows (filename, title), the table with
  the header \<open>title,filename\<close> and the table with the header \<open>filename,title\<close> leave the same
  state, which with \<open>logged\<close> holds the same sequence of write-caption calls, and both
  runs fail or both succeed; when every row can be read back (no line feed in a field, no
  line beyond the scanner's limit) the two runs return the same result. When the header
  lacks one of the two column names, Apply returns the missing-columns error in the state
  it started in.
\<close>

theorem header_independence:
  "(headerIndex header name = -1) = (\<forall>v \<in> set header. \<not> EqualFold (TrimSpace v) name)
   \<and> (headerIndex header name \<noteq> -1 \<longrightarrow>
        0 \<le> headerIndex header name \<and> nat (headerIndex header name) < length header \<and>
        EqualFold (TrimSpace (header ! nat (headerIndex header name))) name \<and>
        (\<forall>j < nat (headerIndex header name). \<not> EqualFold (TrimSpace (header ! j)) name))
   \<and> snd (applyTitlesFromCSV (\<lambda>p. Inr (table [''title'', ''filename''] (map (\<lambda>(f, t). [t, f]) rs))) upsertTitle dir w) =
     snd (applyTitlesFromCSV (\<lambda>p. Inr (table [''filename'', ''title''] (map (\<lambda>(f, t). [f, t]) rs))) upsertTitle dir w)
   \<and> (fst (applyTitlesFromCSV (\<lambda>p. Inr (table [''title'', ''filename''] (map (\<lambda>(f, t). [t, f]) rs))) upsertTitle dir w) = None) =
     (fst (applyTitlesFromCSV (\<lambda>p. Inr (table [''filename'', ''title''] (map (\<lambda>(f, t). [f, t]) rs))) upsertTitle dir w) = None)
   \<and> ((\<forall>(f, t) \<in> set rs. LF \<notin> set f \<and> LF \<notin> set t \<and> length (Encode [f, t]) \<le> maxScanTokenSize) \<longrightarrow>
        applyTitlesFromCSV (\<lambda>p. Inr (table [''title'', ''filename''] (map (\<lambda>(f, t). [t, f]) rs))) upsertTitle dir w =
        applyTitlesFromCSV (\<lambda>p. Inr (table [''filename'', ''title''] (map (\<lambda>(f, t). [f, t]) rs))) upsertTitle dir w)
   \<and> (Open (Join [Clean dir, csvFilename]) = Inr csv \<and> Read (newCSVReader csv) = (Inr header, reader') \<and>
       (headerIndex header ''filename'' = -1 \<or> headerIndex header ''title'' = -1) \<longrightarrow>
        applyTitlesFromCSV Open upsertTitle dir w =
          (Some (Errorf ''csv must include filename and title columns''), w))"
  using headerIndex_absent[of header name] headerIndex_found[of header name]
    apply_swap_any[of rs upsertTitle dir w] apply_swap[of rs upsertTitle dir w]
    apply_missing_columns[of Open dir csv header reader' upsertTitle w]
  by blast

theorem header_independence_witness:
  "applyTitlesFromCSV (\<lambda>p. Inr (table [''title'', ''filename''] [[''Sunset, 2024'', ''a.jpg'']]))
     (logged succeed) ''d'' ((), []) = (None, ((), [(''d/a.jpg'', ''Sunset, 2024'')]))
   \<and> headerIndex ['' Title '', ''FileName''] ''filename'' = 1
   \<and> applyTitlesFromCSV (\<lambda>p. Inr (''name,title'' @ [LF] @ ''a.jpg,x'' @ [LF])) (logged succeed) ''d'' ((), []) =
       (Some (Errorf ''csv must include filename and title columns''), ((), []))"
proof -
  have a: "applyTitlesFromCSV (\<lambda>p. Inr (table [''filename'', ''title''] [[''a.jpg'', ''Sunset, 2024'']]))
     (logged succeed) ''d'' ((), []) = (None, ((), [(''d/a.jpg'', ''Sunset, 2024'')]))"
    by (simp add: eval_simps table_def Encode_eq encodeCSVField_cases quoted_def)
  have b: "length (Encode [''a.jpg'', ''Sunset, 2024'']) \<le> maxScanTokenSize"
    by (simp add: Encode_eq encodeCSVField_cases quoted_def maxScanTokenSize_def)
  have c: "headerIndex ['' Title '', ''FileName''] ''filename'' = 1"
    by (simp add: eval_simps)
  have d: "Read (newCSVReader (''name,title'' @ [LF] @ ''a.jpg,x'' @ [LF])) =
    (Inr [''name'', ''title''], CsvReader (''a.jpg,x'' @ [LF]))"
    by (simp add: eval_simps)
  have e: "headerIndex [''name'', ''title''] ''filename'' = -1"
    by (simp add: eval_simps)
  from a b header_independence[of "[]" "[]" "[(''a.jpg'', ''Sunset, 2024'')]" "logged succeed" "''d''" "((), [])"]
  have 1: "applyTitlesFromCSV (\<lambda>p. Inr (table [''title'', ''filename''] [[''Sunset, 2024'', ''a.jpg'']]))
     (logged succeed) ''d'' ((), []) = (None, ((), [(''d/a.jpg'', ''Sunset, 2024'')]))"
    by simp
  from d e header_independence[of "[''name'', ''title'']" "''filename''" "[]" "logged succeed" "''d''" "((), [])"
      "\<lambda>p. Inr (''name,title'' @ [LF] @ ''a.jpg,x'' @ [LF])" "''name,title'' @ [LF] @ ''a.jpg,x'' @ [LF]"
      "CsvReader (''a.jpg,x'' @ [LF])"]
  have 2: "applyTitlesFromCSV (\<lambda>p. Inr (''name,title'' @ [LF] @ ''a.jpg,x'' @ [LF])) (logged succeed) ''d'' ((), []) =
       (Some (Errorf ''csv must include filename and title columns''), ((), []))"
    by simp
  from 1 c 2 show ?thesis by simp
qed

text \<open>
  C8. A decoded row whose filename field is empty after trimming is skipped: the loop goes
  on with the rows after it, in the same state, so no write-caption call is made for it
  and it is no error. On the table with the one row \<open>,"some title"\<close> Apply makes no call
  and returns no error. Over a whole run every call made is the call for a row whose
  filename field is not empty after trimming.
\<close>

theorem blank_filename:
  "(Read reader = (Inr rc, reader') \<and> filenameIdx < length rc \<and> TrimSpace (rc ! filenameIdx) = [] \<longrightarrow>
      applyLoop upsertTitle dir filenameIdx titleIdx reader w =
      applyLoop upsertTitle dir filenameIdx titleIdx reader' w)
   \<and> applyTitlesFromCSV (\<lambda>p. Inr (''filename,title'' @ [LF] @ '','' @ [DQ] @ ''some title'' @ [DQ] @ [LF]))
        (logged upsertTitle) dir (w, []) = (None, (w, []))
   \<and> (\<exists>k. snd (snd (applyLoop (logged upsertTitle) dir filenameIdx titleIdx reader (w, calls))) =
         calls @ take k (map (callFor dir filenameIdx titleIdx)
           (filter (\<lambda>rc. filenameIdx < length rc \<and> TrimSpace (rc ! filenameIdx) \<noteq> [])
              (decodedRows reader))))"
proof -
  have "applyTitlesFromCSV (\<lambda>p. Inr (''filename,title'' @ [LF] @ '','' @ [DQ] @ ''some title'' @ [DQ] @ [LF]))
        (logged upsertTitle) dir (w, []) = (None, (w, []))"
    by (simp add: applyLoop.simps applyTitlesFromCSV_def Read_def maxScanTokenSize_def dropCR_def
        HasSuffix_def TrimSuffix_def parseCSVLine_def newCSVReader_def headerIndex_def
        TrimSpace_def TrimLeftSpace.simps TrimRightSpace.simps leadingSpace_def trailingSpace_def whiteSpace_def
        toLowerByte_def Let_def)
  then show ?thesis
    using applyLoop_blank[of reader rc reader' filenameIdx upsertTitle dir titleIdx w]
      applyLoop_calls[of upsertTitle dir filenameIdx titleIdx reader "(w, calls)"]
    by auto
qed

theorem blank_filename_witness:
  "applyLoop (logged succeed) ''d'' 0 1 (CsvReader (''  ,t'' @ [LF] @ ''a.jpg,u'' @ [LF])) ((), []) =
     (None, ((), [(''d/a.jpg'', ''u'')]))"
proof -
  have a: "Read (CsvReader (''  ,t'' @ [LF] @ ''a.jpg,u'' @ [LF])) = (Inr [''  '', ''t''], CsvReader (''a.jpg,u'' @ [LF]))"
    by (simp add: eval_simps)
  have b: "TrimSpace ''  '' = []" by (simp add: eval_simps)
  have c: "applyLoop (logged succeed) ''d'' 0 1 (CsvReader (''a.jpg,u'' @ [LF])) ((), []) =
     (None, ((), [(''d/a.jpg'', ''u'')]))"
    by (simp add: eval_simps)
  from a b c blank_filename[of "CsvReader (''  ,t'' @ [LF] @ ''a.jpg,u'' @ [LF])" "[''  '', ''t'']"
      "CsvReader (''a.jpg,u'' @ [LF])" 0 "logged succeed" "''d''" 1 "((), [])"]
  show ?thesis by simp
qed

text \<open>
  C10. For a decoded row with a filename field that is not empty after trimming and with
  a title field, the next write-caption call gets the title field as decoded and the path
  made from the trimmed filename: the filename itself when it is absolute, else joined to
  the directory.
\<close>

theorem title_verbatim:
  "Read reader = (Inr rc, reader') \<Longrightarrow> filenameIdx < length rc \<Longrightarrow> titleIdx < length rc \<Longrightarrow>
   TrimSpace (rc ! filenameIdx) \<noteq> [] \<Longrightarrow>
   (\<exists>more. snd (snd (applyLoop (logged upsertTitle) dir filenameIdx titleIdx reader (w, calls))) =
      calls @ (if IsAbs (TrimSpace (rc ! filenameIdx)) then TrimSpace (rc ! filenameIdx)
               else Join [dir, TrimSpace (rc ! filenameIdx)], rc ! titleIdx) # more)
   \<and> applyLoop upsertTitle dir filenameIdx titleIdx reader w =
       (case upsertTitle (if IsAbs (TrimSpace (rc ! filenameIdx)) then TrimSpace (rc ! filenameIdx)
                          else Join [dir, TrimSpace (rc ! filenameIdx)]) (rc ! titleIdx) w of
          (Some err, w') \<Rightarrow> (Some (Wrapf (''apply title for '' @ TrimSpace (rc ! filenameIdx)) err), w')
        | (None, w') \<Rightarrow> applyLoop upsertTitle dir filenameIdx titleIdx reader' w')"
  using applyLoop_next_call[of reader rc reader' filenameIdx upsertTitle dir titleIdx w calls]
    applyLoop_call[of reader rc reader' filenameIdx upsertTitle dir titleIdx w]
  by simp

theorem title_verbatim_witness:
  "(\<exists>more. snd (snd (applyLoop (logged succeed) ''d'' 0 1
       (CsvReader (''  a.jpg ,  Hello  '' @ [LF] @ '' /p/b.jpg,x'' @ [LF])) ((), []))) =
      (''d/a.jpg'', ''  Hello  '') # more)
   \<and> (\<exists>more. snd (snd (applyLoop (logged succeed) ''d'' 0 1 (CsvReader ('' /p/b.jpg,x'' @ [LF])) ((), []))) =
      (''/p/b.jpg'', ''x'') # more)"
proof -
  have a: "Read (CsvReader (''  a.jpg ,  Hello  '' @ [LF] @ '' /p/b.jpg,x'' @ [LF])) =
    (Inr [''  a.jpg '', ''  Hello  ''], CsvReader ('' /p/b.jpg,x'' @ [LF]))"
    by (simp add: eval_simps)
  have b: "TrimSpace ''  a.jpg '' = ''a.jpg''" by (simp add: eval_simps)
  have c: "Read (CsvReader ('' /p/b.jpg,x'' @ [LF])) = (Inr ['' /p/b.jpg'', ''x''], CsvReader [])"
    by (simp add: eval_simps)
  have d: "TrimSpace '' /p/b.jpg'' = ''/p/b.jpg''" by (simp add: eval_simps)
  have e: "Join [''d'', ''a.jpg''] = ''d/a.jpg''" "\<not> IsAbs ''a.jpg''" "IsAbs ''/p/b.jpg''" by (simp_all add: eval_simps)
  from a b e title_verbatim[of "CsvReader (''  a.jpg ,  Hello  '' @ [LF] @ '' /p/b.jpg,x'' @ [LF])"
      "[''  a.jpg '', ''  Hello  '']" "CsvReader ('' /p/b.jpg,x'' @ [LF])" 0 1 succeed "''d''" "()" "[]"]
  have 1: "\<exists>more. snd (snd (applyLoop (logged succeed) ''d'' 0 1
       (CsvReader (''  a.jpg ,  Hello  '' @ [LF] @ '' /p/b.jpg,x'' @ [LF])) ((), []))) =
      (''d/a.jpg'', ''  Hello  '') # more" by simp
  from c d e title_verbatim[of "CsvReader ('' /p/b.jpg,x'' @ [LF])"
      "['' /p/b.jpg'', ''x'']" "CsvReader []" 0 1 succeed "''d''" "()" "[]"]
  have 2: "\<exists>more. snd (snd (applyLoop (logged succeed) ''d'' 0 1 (CsvReader ('' /p/b.jpg,x'' @ [LF])) ((), []))) =
      (''/p/b.jpg'', ''x'') # more" by simp
  from 1 2 show ?thesis by simp
qed

section \<open>The claims about Scan\<close>

text \<open>
  C3, as amended. \<open>readTitle\<close> returns an error when the container does not parse
  (\<open>ParseFile\<close> fails) and when the file holds an EXIF segment that cannot be parsed
  (\<open>Exif\<close> fails with an error other than \<open>ErrNoExif\<close>). When both steps succeed it
  returns a text and no error, and the empty text when the lookup of the tag fails or
  finds nothing, when the value of the entry cannot be read, and when the value is an
  empty list or of another type. The file whose container parses and which holds no
  EXIF segment is left open.
\<close>

theorem readTitle_errors:
  "(ParseFile mp path = Inl err \<longrightarrow> readTitle mp path = Inl (Wrapf ''parse JPEG'' err))
   \<and> (ParseFile mp path = Inr sl \<and> Exif sl = Inl err \<and> err \<noteq> ErrNoExif \<longrightarrow>
        readTitle mp path = Inl (Wrapf ''parse EXIF'' err))
   \<and> (ParseFile mp path = Inr sl \<and> Exif sl = Inr rootIfd \<longrightarrow>
        (\<exists>title. readTitle mp path = Inr title)
        \<and> (FindTagWithName rootIfd ''ImageDescription'' = Inl err \<longrightarrow> readTitle mp path = Inr [])
        \<and> (FindTagWithName rootIfd ''ImageDescription'' = Inr [] \<longrightarrow> readTitle mp path = Inr [])
        \<and> (FindTagWithName rootIfd ''ImageDescription'' = Inr (entry # entries) \<and> Value entry = Inl err \<longrightarrow>
             readTitle mp path = Inr [])
        \<and> (FindTagWithName rootIfd ''ImageDescription'' = Inr (entry # entries) \<and>
             Value entry \<in> {Inr (StringSliceValue []), Inr (BytesSliceValue []), Inr OtherValue} \<longrightarrow>
             readTitle mp path = Inr []))"
  by (auto simp: readTitle_def split: sum.splits tagValue.splits)

theorem readTitle_errors_witness:
  "readTitle (JpegMediaParser (\<lambda>p. Inr (SegmentList (Inr (Ifd (\<lambda>n. Inl (External ''tag not found'')))))))
     ''d/a.jpg'' = Inr []
   \<and> readTitle (JpegMediaParser (\<lambda>p. Inl (External ''not a JPEG''))) ''d/a.jpg'' =
       Inl (Wrapf ''parse JPEG'' (External ''not a JPEG''))
   \<and> readTitle (JpegMediaParser (\<lambda>p. Inr (SegmentList (Inl (External ''truncated IFD''))))) ''d/a.jpg'' =
       Inl (Wrapf ''parse EXIF'' (External ''truncated IFD''))"
  using readTitle_errors[of "JpegMediaParser (\<lambda>p. Inr (SegmentList (Inr (Ifd (\<lambda>n. Inl (External ''tag not found''))))))"
      "''d/a.jpg''" "External ''tag not found''" "SegmentList (Inr (Ifd (\<lambda>n. Inl (External ''tag not found''))))"
      "Ifd (\<lambda>n. Inl (External ''tag not found''))"]
    readTitle_errors[of "JpegMediaParser (\<lambda>p. Inl (External ''not a JPEG''))" "''d/a.jpg''" "External ''not a JPEG''"]
    readTitle_errors[of "JpegMediaParser (\<lambda>p. Inr (SegmentList (Inl (External ''truncated IFD''))))" "''d/a.jpg''"
      "External ''truncated IFD''" "SegmentList (Inl (External ''truncated IFD''))"]
  by simp

text \<open>
  C3 as stated fails: not only a container that cannot be parsed produces an error. For a
  JPEG file whose container parses and whose EXIF segment is damaged, so that \<open>Exif\<close>
  fails on it, \<open>readTitle\<close> returns the error \<open>parse EXIF\<close>.
\<close>

theorem readTitle_counterexample:
  "readTitle (JpegMediaParser (\<lambda>p. Inr (SegmentList (Inl (External ''damaged EXIF segment''))))) ''d/a.jpg'' =
     Inl (Wrapf ''parse EXIF'' (External ''damaged EXIF segment''))"
  by (simp add: readTitle_def)

text \<open>
  The file the amended claim leaves open: its container parses and it holds no EXIF
  segment. The library's \<open>Exif\<close> then fails with \<open>ErrNoExif\<close>, and \<open>readTitle\<close> hands this
  error on like any other error of \<open>Exif\<close>, whereas every later absence (no tag, no
  entry, no value that can be read) gives the empty text and no error.
\<close>

lemma readTitle_without_exif:
  "readTitle (JpegMediaParser (\<lambda>p. Inr (SegmentList (Inl ErrNoExif)))) ''d/a.jpg'' =
     Inl (Wrapf ''parse EXIF'' ErrNoExif)"
  by (simp add: readTitle_def)

text \<open>
  C4. When \<open>scanDirectory\<close> returns no error, the sidecar file (the bytes the file has
  received when \<open>scanDirectory\<close> returns, not those a writer may still hold in its buffer)
  consists of the header row and then one row, name and caption, for each qualifying
  entry of the listing, in the order of the listing, and of nothing else; the caption is
  what \<open>readTitle\<close> returned for the entry. An entry qualifies when it is a regular file,
  its extension is \<open>.jpg\<close> or \<open>.jpeg\<close> in any case and its name is not the sidecar filename
  in any case. And \<open>scanDirectory\<close> returns no error when the listing and the creation of
  the file succeed, no write to the file fails, the absolute path is found and
  \<open>readTitle\<close> succeeds on every qualifying entry.
\<close>

theorem scan_sidecar:
  "(scanDirectory env dir = Inr content \<longrightarrow>
      (\<exists>entries absDir. ReadDir env (Clean dir) = Inr entries \<and> Abs (Getwd env) (Clean dir) = Inr absDir
         \<and> content = sidecar env absDir entries
         \<and> (\<forall>entry \<in> set (filter qualifying entries).
              readTitle (NewJpegMediaParser env) (Join [absDir, Name entry]) = Inr (caption env absDir entry))))
   \<and> (ReadDir env (Clean dir) = Inr entries \<and> Create env (Join [Clean dir, csvFilename]) = None
       \<and> Dev env = reliable \<and> Abs (Getwd env) (Clean dir) = Inr absDir
       \<and> (\<forall>entry \<in> set (filter qualifying entries).
            \<exists>title. readTitle (NewJpegMediaParser env) (Join [absDir, Name entry]) = Inr title) \<longrightarrow>
      scanDirectory env dir = Inr (sidecar env absDir entries))"
proof (intro conjI impI)
  assume a: "scanDirectory env dir = Inr content"
  then obtain entries w1 absDir w2 w3 where
    rd: "ReadDir env (Clean dir) = Inr entries" and
    hd: "Write (Dev env) newCSVWriter [''filename'', ''title''] = (None, w1)" and
    ab: "Abs (Getwd env) (Clean dir) = Inr absDir" and
    lp: "scanLoop env absDir entries w1 = (None, w2)" and
    fl: "Flush (Dev env) w2 = (None, w3)" and
    c: "content = wr (writer w3)"
    by (auto simp: scanDirectory_def Let_def split: sum.splits option.splits prod.splits)
  from Flush_ok[OF fl] c have c': "content = accepted w2" by simp
  from Write_ok[OF hd] have "accepted w1 = Encode [''filename'', ''title'']"
    by (simp add: Encode_eq accepted_new)
  with scanLoop_ok[OF lp] c' have "content = sidecar env absDir entries"
    "\<forall>entry \<in> set (filter qualifying entries).
        readTitle (NewJpegMediaParser env) (Join [absDir, Name entry]) = Inr (caption env absDir entry)"
    by (simp_all add: sidecar_def)
  with rd ab show "\<exists>entries absDir. ReadDir env (Clean dir) = Inr entries \<and> Abs (Getwd env) (Clean dir) = Inr absDir
         \<and> content = sidecar env absDir entries
         \<and> (\<forall>entry \<in> set (filter qualifying entries).
              readTitle (NewJpegMediaParser env) (Join [absDir, Name entry]) = Inr (caption env absDir entry))"
    by blast
next
  assume b: "ReadDir env (Clean dir) = Inr entries \<and> Create env (Join [Clean dir, csvFilename]) = None
       \<and> Dev env = reliable \<and> Abs (Getwd env) (Clean dir) = Inr absDir
       \<and> (\<forall>entry \<in> set (filter qualifying entries).
            \<exists>title. readTitle (NewJpegMediaParser env) (Join [absDir, Name entry]) = Inr title)"
  obtain e w1 where hd: "Write (Dev env) newCSVWriter [''filename'', ''title''] = (e, w1)"
    by (cases "Write (Dev env) newCSVWriter [''filename'', ''title'']")
  with Write_reliable[of newCSVWriter "[''filename'', ''title'']"] b have e: "e = None" by simp
  obtain e2 w2 where lp: "scanLoop env absDir entries w1 = (e2, w2)" by (cases "scanLoop env absDir entries w1")
  with scanLoop_complete[of env entries absDir w1] b have e2: "e2 = None" by simp
  from Write_ok[of "Dev env" newCSVWriter "[''filename'', ''title'']" w1] hd e
  have "accepted w1 = Encode [''filename'', ''title'']" by (simp add: Encode_eq accepted_new)
  with scanLoop_ok[of env absDir entries w1 w2] lp e2 have w2: "accepted w2 = sidecar env absDir entries"
    by (simp add: sidecar_def)
  obtain e3 w3 where fl: "Flush (Dev env) w2 = (e3, w3)" by (cases "Flush (Dev env) w2")
  with Flush_reliable[of w2] b have e3: "e3 = None" by simp
  with Flush_ok[of "Dev env" w2 w3] fl w2 have "wr (writer w3) = sidecar env absDir entries" by simp
  with b hd e lp e2 fl e3 show "scanDirectory env dir = Inr (sidecar env absDir entries)"
    by (simp add: scanDirectory_def Let_def)
qed

theorem scan_sidecar_witness:
  "scanDirectory sunsetDir ''d'' =
     Inr (''filename,title'' @ [LF] @ ''B.JPEG,'' @ [LF] @ ''a.jpg,Sunset'' @ [LF])"
proof -
  let ?entries = "[DirEntry ''B.JPEG'' False True, DirEntry ''Bilder.CSV'' False True,
                 DirEntry ''a.jpg'' False True, DirEntry ''notes.txt'' False True,
                 DirEntry ''old.jpg'' True False]"
  have q: "filter qualifying ?entries = [DirEntry ''B.JPEG'' False True, DirEntry ''a.jpg'' False True]"
    by (simp add: qualifying_def jpegExtension_def extension_def sameLetter_def toLowerByte_def csvFilename_def)
  have j: "Join [''/home/d'', ''a.jpg''] = ''/home/d/a.jpg''" "Join [''/home/d'', ''B.JPEG''] = ''/home/d/B.JPEG''"
    "Clean ''d'' = ''d''" "Abs (Inr ''/home'') ''d'' = Inr ''/home/d''"
    by (simp_all add: Join_def Clean_def HasPrefix_def Abs_def IsAbs_def)
  have t: "readTitle (NewJpegMediaParser sunsetDir) ''/home/d/a.jpg'' = Inr ''Sunset''"
    "readTitle (NewJpegMediaParser sunsetDir) ''/home/d/B.JPEG'' = Inr []"
    by (simp_all add: sunsetDir_def readTitle_def)
  have s: "sidecar sunsetDir ''/home/d'' ?entries =
    ''filename,title'' @ [LF] @ ''B.JPEG,'' @ [LF] @ ''a.jpg,Sunset'' @ [LF]"
    unfolding sidecar_def q by (simp add: caption_def j t Encode_eq encodeCSVField_cases)
  have A: "ReadDir sunsetDir (Clean ''d'') = Inr ?entries" by (simp add: sunsetDir_def)
  have B: "Create sunsetDir (Join [Clean ''d'', csvFilename]) = None" by (simp add: sunsetDir_def)
  have C: "Dev sunsetDir = reliable" by (simp add: sunsetDir_def)
  have D: "Abs (Getwd sunsetDir) (Clean ''d'') = Inr ''/home/d''" by (simp add: sunsetDir_def j)
  have E: "\<forall>entry \<in> set (filter qualifying ?entries).
    \<exists>title. readTitle (NewJpegMediaParser sunsetDir) (Join [''/home/d'', Name entry]) = Inr title"
    unfolding q by (simp add: j t)
  from scan_sidecar[of sunsetDir "''d''" "[]" ?entries "''/home/d''"] A B C D E
  have "scanDirectory sunsetDir ''d'' = Inr (sidecar sunsetDir ''/home/d'' ?entries)" by blast
  with s show ?thesis by simp
qed

end
